theory Spec2Isabelle
  imports Main
begin

section \<open>Data model\<close>

text \<open>
  The panel of \<^verbatim>\<open>artifact-diff-panel/index.tsx\<close> reads the artifact's contents and the
  \<^verbatim>\<open>ArtifactDiffInfo\<close> attached to a message. Both types are declared in the shared
  package, which the panel only imports.
\<close>

text \<open>Modelled from the spec: the tagged union \<^verbatim>\<open>ArtifactContent\<close> (declared in
  \<^verbatim>\<open>@opencanvas/shared/types\<close>): a snapshot has an index, an optional display title, a
  kind (\<^verbatim>\<open>type\<close> is "code" or "text") and the body of that kind.\<close>

datatype ArtifactContent =
    ArtifactCode (index: int) (title: "string option") (code: string)
  | ArtifactMarkdown (index: int) (title: "string option") (fullMarkdown: string)

datatype ContentType = CodeType | TextType

fun ctype :: "ArtifactContent \<Rightarrow> ContentType" where
  "ctype (ArtifactCode i t c) = CodeType"
| "ctype (ArtifactMarkdown i t m) = TextType"

datatype ChangeType = Create | Update

text \<open>Modelled from the spec: the record \<^verbatim>\<open>ArtifactDiffInfo\<close> (declared in
  \<^verbatim>\<open>@opencanvas/shared/types\<close>): the change type, the version shown as new, and the
  version shown as old, which may be absent.\<close>

record ArtifactDiffInfo =
  changeType :: ChangeType
  artifactIndex :: int
  previousIndex :: "int option"

text \<open>One segment of the line diff: the \<^verbatim>\<open>Change\<close> objects of the package \<^verbatim>\<open>diff\<close>.
  The field \<^verbatim>\<open>value\<close> is called \<open>cvalue\<close> here; an absent flag is \<open>False\<close>.\<close>

record Change =
  cvalue :: string
  added :: bool
  removed :: bool

datatype LineType = Insert | Delete | Normal

text \<open>The objects pushed to \<^verbatim>\<open>hunkChanges\<close> (source field \<^verbatim>\<open>type\<close> is \<open>ltype\<close>);
  \<^verbatim>\<open>undefined\<close> line numbers are \<open>None\<close>.\<close>

record LineChange =
  ltype :: LineType
  content :: string
  oldLineNumber :: "nat option"
  newLineNumber :: "nat option"

text \<open>The hunk object (source field \<^verbatim>\<open>content\<close> is \<open>header\<close>).\<close>

record Hunk =
  oldStart :: nat
  oldLines :: nat
  newStart :: nat
  newLines :: nat
  header :: string
  changes :: "LineChange list"

text \<open>The file object handed to the renderer (source field \<^verbatim>\<open>type\<close> is \<open>ftype\<close>).\<close>

record DiffFile =
  oldPath :: string
  newPath :: string
  oldRevision :: string
  newRevision :: string
  ftype :: string
  hunks :: "Hunk list"

record Stats =
  additions :: nat
  deletions :: nat

section \<open>Splitting a segment into lines\<close>

abbreviation NL :: char where
  "NL \<equiv> CHR 0x0A"

text \<open>\<^verbatim>\<open>s.split('\n')\<close>: the pieces between line feeds; the empty string gives one
  empty piece, and a trailing line feed gives a last empty piece.\<close>

fun split_nl :: "string \<Rightarrow> string list" where
  "split_nl [] = [[]]"
| "split_nl (c # cs) =
     (if c = NL then [] # split_nl cs
      else (case split_nl cs of
              [] \<Rightarrow> [[c]]
            | l # ls \<Rightarrow> (c # l) # ls))"

text \<open>\<^verbatim>\<open>s.endsWith('\n')\<close>.\<close>

definition endsWith_nl :: "string \<Rightarrow> bool" where
  "endsWith_nl s = (s \<noteq> [] \<and> last s = NL)"

text \<open>Line 103: \<^verbatim>\<open>change.value.split('\n').filter(line => line !== '' || change.value.endsWith('\n'))\<close>.\<close>

definition change_lines :: "Change \<Rightarrow> string list" where
  "change_lines change =
     filter (\<lambda>line. line \<noteq> [] \<or> endsWith_nl (cvalue change)) (split_nl (cvalue change))"

section \<open>The hunk builder (lines 94 to 158)\<close>

text \<open>The local variables of the \<^verbatim>\<open>try\<close> block: the two counters
  \<^verbatim>\<open>oldLineNumber\<close> and \<^verbatim>\<open>newLineNumber\<close>, the array \<^verbatim>\<open>hunkChanges\<close> and the two
  counts \<^verbatim>\<open>additions\<close> and \<^verbatim>\<open>deletions\<close>.\<close>

record BuildState =
  oldCounter :: nat
  newCounter :: nat
  hunkChanges :: "LineChange list"
  addCount :: nat
  delCount :: nat

definition initState :: BuildState where
  "initState = \<lparr>oldCounter = 1, newCounter = 1, hunkChanges = [], addCount = 0, delCount = 0\<rparr>"

text \<open>The three bodies of \<^verbatim>\<open>lines.forEach\<close>.\<close>

definition pushInsert :: "string \<Rightarrow> BuildState \<Rightarrow> BuildState" where
  "pushInsert line st =
     st\<lparr>hunkChanges := hunkChanges st @
            [\<lparr>ltype = Insert, content = line, oldLineNumber = None,
              newLineNumber = Some (newCounter st)\<rparr>],
        newCounter := newCounter st + 1,
        addCount := addCount st + 1\<rparr>"

definition pushDelete :: "string \<Rightarrow> BuildState \<Rightarrow> BuildState" where
  "pushDelete line st =
     st\<lparr>hunkChanges := hunkChanges st @
            [\<lparr>ltype = Delete, content = line, oldLineNumber = Some (oldCounter st),
              newLineNumber = None\<rparr>],
        oldCounter := oldCounter st + 1,
        delCount := delCount st + 1\<rparr>"

definition pushNormal :: "string \<Rightarrow> BuildState \<Rightarrow> BuildState" where
  "pushNormal line st =
     st\<lparr>hunkChanges := hunkChanges st @
            [\<lparr>ltype = Normal, content = line, oldLineNumber = Some (oldCounter st),
              newLineNumber = Some (newCounter st)\<rparr>],
        oldCounter := oldCounter st + 1,
        newCounter := newCounter st + 1\<rparr>"

text \<open>The body of \<^verbatim>\<open>changes.forEach\<close>: the added flag is tested first.\<close>

definition processChange :: "Change \<Rightarrow> BuildState \<Rightarrow> BuildState" where
  "processChange change st =
     (if added change then fold pushInsert (change_lines change) st
      else if removed change then fold pushDelete (change_lines change) st
      else fold pushNormal (change_lines change) st)"

definition walk :: "Change list \<Rightarrow> BuildState" where
  "walk cs = fold processChange cs initState"

text \<open>Decimal rendering of a number, as string concatenation does it.\<close>

fun showNat :: "nat \<Rightarrow> string" where
  "showNat n =
     (if n < 10 then [char_of (48 + n)]
      else showNat (n div 10) @ [char_of (48 + n mod 10)])"

declare showNat.simps [simp del]

definition mkHunk :: "BuildState \<Rightarrow> Hunk" where
  "mkHunk st =
     \<lparr>oldStart = 1, oldLines = oldCounter st - 1,
      newStart = 1, newLines = newCounter st - 1,
      header = ''@@ -1,'' @ showNat (oldCounter st - 1) @ '' +1,''
                 @ showNat (newCounter st - 1) @ '' @@'',
      changes = hunkChanges st\<rparr>"

text \<open>From the diff segments to the file object and the statistics that the effect stores.\<close>

definition buildDiff :: "string \<Rightarrow> Change list \<Rightarrow> DiffFile \<times> Stats" where
  "buildDiff fileName cs =
     (let st = walk cs;
          hs = (if length (hunkChanges st) > 0 then [mkHunk st] else [])
      in (\<lparr>oldPath = fileName, newPath = fileName, oldRevision = ''previous'',
           newRevision = ''current'', ftype = ''modify'', hunks = hs\<rparr>,
          \<lparr>additions = addCount st, deletions = delCount st\<rparr>))"

section \<open>Choosing the two versions (lines 58 to 87)\<close>

datatype ResolveError = NotFound

record Resolved =
  oldText :: string
  newText :: string
  fileName :: string

text \<open>\<^verbatim>\<open>contents.find((c) => c.index === i)\<close>; an absent index equals no number.\<close>

definition findIndex :: "ArtifactContent list \<Rightarrow> int option \<Rightarrow> ArtifactContent option" where
  "findIndex contents i = find (\<lambda>c. Some (index c) = i) contents"

text \<open>\<^verbatim>\<open>currentContent.title || "Untitled"\<close>: an absent or empty title is falsy.\<close>

definition titleOrUntitled :: "ArtifactContent \<Rightarrow> string" where
  "titleOrUntitled c =
     (case title c of None \<Rightarrow> ''Untitled''
      | Some t \<Rightarrow> if t = [] then ''Untitled'' else t)"

definition resolve :: "ArtifactContent list \<Rightarrow> ArtifactDiffInfo \<Rightarrow> ResolveError + Resolved" where
  "resolve contents info =
     (let currentContent = findIndex contents (Some (artifactIndex info));
          previousContent =
            (if changeType info = Update then findIndex contents (previousIndex info)
             else None)
      in case currentContent of
           None \<Rightarrow> Inl NotFound
         | Some cur \<Rightarrow>
             (let (new, old) =
                    (case cur of
                       ArtifactCode i t c \<Rightarrow>
                         (c, case previousContent of
                               Some (ArtifactCode j u d) \<Rightarrow> d
                             | _ \<Rightarrow> [])
                     | ArtifactMarkdown i t m \<Rightarrow>
                         (m, case previousContent of
                               Some (ArtifactMarkdown j u d) \<Rightarrow> d
                             | _ \<Rightarrow> []));
                  old' = (if changeType info = Create then [] else old)
              in Inr \<lparr>oldText = old', newText = new, fileName = titleOrUntitled cur\<rparr>))"

section \<open>The effect (lines 31 to 163)\<close>

record Message =
  msgId :: "string option"
  artifactDiffInfo :: "ArtifactDiffInfo option"

text \<open>The component state that the effect writes (source field \<^verbatim>\<open>open\<close> is \<open>isOpen\<close>).\<close>

record PanelState =
  isOpen :: bool
  diffInfo :: "ArtifactDiffInfo option"
  diffFiles :: "DiffFile list"
  stats :: Stats

text \<open>\<^verbatim>\<open>!diffId\<close>: null and the empty string are falsy.\<close>

definition noDiffId :: "string option \<Rightarrow> bool" where
  "noDiffId d = (case d of None \<Rightarrow> True | Some s \<Rightarrow> s = [])"

text \<open>
  The effect takes the line-diff function \<^verbatim>\<open>diffLines\<close> of the package \<^verbatim>\<open>diff\<close> as a
  parameter: it returns the segments, or throws (\<open>Inl\<close> with the thrown value). The result
  is the new component state and what was written with \<^verbatim>\<open>console.error\<close>. The three
  tests of line 38 return alike, so the artifact is taken apart last.
\<close>

definition diffEffect ::
  "(string \<Rightarrow> string \<Rightarrow> string + Change list) \<Rightarrow> string option \<Rightarrow> Message list \<Rightarrow>
   ArtifactContent list option \<Rightarrow> PanelState \<Rightarrow> PanelState \<times> string list" where
  "diffEffect diffLines diffId messages artifact st =
     (if noDiffId diffId \<and> isOpen st then
        (st\<lparr>isOpen := False, diffInfo := None, diffFiles := []\<rparr>, [])
      else if noDiffId diffId \<or> messages = [] then (st, [])
      else
        (case artifact of
           None \<Rightarrow> (st, [])
         | Some contents \<Rightarrow>
            (case find (\<lambda>m. msgId m = diffId) messages of
               None \<Rightarrow> (st, [])
             | Some diffMessage \<Rightarrow>
                 (case artifactDiffInfo diffMessage of
                    None \<Rightarrow> (st, [])
                  | Some info \<Rightarrow>
                      (let st1 = st\<lparr>diffInfo := Some info\<rparr> in
                       case resolve contents info of
                         Inl e \<Rightarrow> (st1, [])
                       | Inr r \<Rightarrow>
                           (case diffLines (oldText r) (newText r) of
                              Inl err \<Rightarrow> (st1, [''Error generating diff: '' @ err])
                            | Inr cs \<Rightarrow>
                                (let (file, s) = buildDiff (fileName r) cs
                                 in (st1\<lparr>diffFiles := [file], stats := s, isOpen := True\<rparr>,
                                     []))))))))"

section \<open>The contract of the line-diff step\<close>

text \<open>Modelled from the spec: the line-diff step itself (\<^verbatim>\<open>diffLines\<close> of the package
  \<^verbatim>\<open>diff\<close>) is not part of the repository. The spec describes its result as an ordered
  sequence of line-level segments, each tagged added, removed or unchanged and carrying
  the literal text it covers, a run of consecutive lines. \<open>tokenize\<close> cuts a text into
  its lines, each with its line feed when it has one.\<close>

fun tokenize :: "string \<Rightarrow> string list" where
  "tokenize [] = []"
| "tokenize (c # cs) =
     (if c = NL then [c] # tokenize cs
      else (case tokenize cs of
              [] \<Rightarrow> [[c]]
            | t # ts \<Rightarrow> (c # t) # ts))"

text \<open>Modelled from the spec: the segments \<open>segs\<close>, in order, are runs of whole lines
  that together make up the text.\<close>

definition covers :: "string \<Rightarrow> Change list \<Rightarrow> bool" where
  "covers txt segs = (concat (map (\<lambda>c. tokenize (cvalue c)) segs) = tokenize txt)"

text \<open>Modelled from the spec: \<open>cs\<close> is a line-level diff of the old and the new text: no
  segment is both added and removed, the removed and unchanged segments cover the old
  text, and the added and unchanged segments cover the new text.\<close>

definition is_line_diff :: "string \<Rightarrow> string \<Rightarrow> Change list \<Rightarrow> bool" where
  "is_line_diff old new cs =
     (list_all (\<lambda>c. \<not> (added c \<and> removed c)) cs \<and>
      covers old (filter (\<lambda>c. \<not> added c) cs) \<and>
      covers new (filter (\<lambda>c. \<not> removed c) cs))"

text \<open>Modelled from the spec: the algorithm is a longest-common-subsequence diff over
  lines: the unchanged segments hold as many lines as a longest common subsequence of
  the two texts' lines.\<close>

fun lcs :: "'a list \<Rightarrow> 'a list \<Rightarrow> nat" where
  "lcs [] ys = 0"
| "lcs (x # xs) [] = 0"
| "lcs (x # xs) (y # ys) =
     (if x = y then Suc (lcs xs ys) else max (lcs xs (y # ys)) (lcs (x # xs) ys))"

definition is_lcs_diff :: "string \<Rightarrow> string \<Rightarrow> Change list \<Rightarrow> bool" where
  "is_lcs_diff old new cs =
     (is_line_diff old new cs \<and>
      length (concat (map (\<lambda>c. tokenize (cvalue c))
                (filter (\<lambda>c. \<not> added c \<and> \<not> removed c) cs)))
        = lcs (tokenize old) (tokenize new))"

section \<open>Notions used to state the properties\<close>

text \<open>The role a segment gives its lines, by the order of the tests in the loop.\<close>

definition roleOf :: "Change \<Rightarrow> LineType" where
  "roleOf c = (if added c then Insert else if removed c then Delete else Normal)"

text \<open>The lines in emission order, each with its role.\<close>

definition emitted :: "Change list \<Rightarrow> (LineType \<times> string) list" where
  "emitted cs = concat (map (\<lambda>c. map (Pair (roleOf c)) (change_lines c)) cs)"

text \<open>How many of the lines advance the old and the new counter.\<close>

definition oldCount :: "(LineType \<times> string) list \<Rightarrow> nat" where
  "oldCount xs = length (filter (\<lambda>x. fst x \<noteq> Insert) xs)"

definition newCount :: "(LineType \<times> string) list \<Rightarrow> nat" where
  "newCount xs = length (filter (\<lambda>x. fst x \<noteq> Delete) xs)"

definition insCount :: "(LineType \<times> string) list \<Rightarrow> nat" where
  "insCount xs = length (filter (\<lambda>x. fst x = Insert) xs)"

definition delsCount :: "(LineType \<times> string) list \<Rightarrow> nat" where
  "delsCount xs = length (filter (\<lambda>x. fst x = Delete) xs)"

text \<open>Numbering a sequence of lines from given counter values.\<close>

fun numbered :: "nat \<Rightarrow> nat \<Rightarrow> (LineType \<times> string) list \<Rightarrow> LineChange list" where
  "numbered i j [] = []"
| "numbered i j ((Insert, l) # xs) =
     \<lparr>ltype = Insert, content = l, oldLineNumber = None, newLineNumber = Some j\<rparr>
       # numbered i (Suc j) xs"
| "numbered i j ((Delete, l) # xs) =
     \<lparr>ltype = Delete, content = l, oldLineNumber = Some i, newLineNumber = None\<rparr>
       # numbered (Suc i) j xs"
| "numbered i j ((Normal, l) # xs) =
     \<lparr>ltype = Normal, content = l, oldLineNumber = Some i, newLineNumber = Some j\<rparr>
       # numbered (Suc i) (Suc j) xs"

text \<open>All line changes of a result, the old and new numbers they carry, and the body of a
  snapshot.\<close>

definition allChanges :: "DiffFile \<Rightarrow> LineChange list" where
  "allChanges f = concat (map changes (hunks f))"

definition oldNumbers :: "LineChange list \<Rightarrow> nat list" where
  "oldNumbers ls = List.map_filter oldLineNumber ls"

definition newNumbers :: "LineChange list \<Rightarrow> nat list" where
  "newNumbers ls = List.map_filter newLineNumber ls"

definition body :: "ArtifactContent \<Rightarrow> string" where
  "body c = (case c of ArtifactCode i t d \<Rightarrow> d | ArtifactMarkdown i t m \<Rightarrow> m)"

text \<open>The three kinds of segment, for writing examples.\<close>

definition unchangedSeg :: "string \<Rightarrow> Change" where
  "unchangedSeg s = \<lparr>cvalue = s, added = False, removed = False\<rparr>"

definition addedSeg :: "string \<Rightarrow> Change" where
  "addedSeg s = \<lparr>cvalue = s, added = True, removed = False\<rparr>"

definition removedSeg :: "string \<Rightarrow> Change" where
  "removedSeg s = \<lparr>cvalue = s, added = False, removed = True\<rparr>"

text \<open>The segments of the scenario old = "line1\<newline>line2", new =
  "line1\<newline>line2\<newline>line3": lines are compared with their line feeds, so the
  old last line "line2" is not the new line "line2\<newline>".\<close>

definition scenarioSegments :: "Change list" where
  "scenarioSegments =
     [unchangedSeg ''line1\<newline>'', removedSeg ''line2'', addedSeg ''line2\<newline>line3'']"

text \<open>How many line changes of a given role have empty content.\<close>

definition emptyLines :: "LineType \<Rightarrow> DiffFile \<Rightarrow> nat" where
  "emptyLines r f = length (filter (\<lambda>l. ltype l = r \<and> content l = []) (allChanges f))"

text \<open>How many of the lines kept from a segment are empty.\<close>

definition blankLines :: "Change \<Rightarrow> nat" where
  "blankLines c = length (filter (\<lambda>l. l = []) (change_lines c))"

text \<open>A history, two descriptors, the messages carrying them, a state that shows an
  earlier diff, and a line-diff step that throws: the inputs of the examples.\<close>

definition exampleContents :: "ArtifactContent list" where
  "exampleContents =
     [ArtifactMarkdown 1 (Some ''Notes'') ''alpha'',
      ArtifactMarkdown 2 (Some ''Notes'') ''alpha\<newline>beta'',
      ArtifactCode 3 None ''print(1)'']"

definition exampleUpdate :: ArtifactDiffInfo where
  "exampleUpdate = \<lparr>changeType = Update, artifactIndex = 2, previousIndex = Some 1\<rparr>"

definition exampleMissing :: ArtifactDiffInfo where
  "exampleMissing = \<lparr>changeType = Update, artifactIndex = 7, previousIndex = Some 1\<rparr>"

definition exampleMessages :: "Message list" where
  "exampleMessages =
     [\<lparr>msgId = Some ''m1'', artifactDiffInfo = Some exampleUpdate\<rparr>,
      \<lparr>msgId = Some ''m2'', artifactDiffInfo = Some exampleMissing\<rparr>]"

definition exampleState :: PanelState where
  "exampleState =
     \<lparr>isOpen = True, diffInfo = None,
      diffFiles = [fst (buildDiff ''Old'' [addedSeg ''x''])],
      stats = \<lparr>additions = 1, deletions = 0\<rparr>\<rparr>"

definition throwingDiff :: "string \<Rightarrow> string \<Rightarrow> string + Change list" where
  "throwingDiff old new = Inl ''internal error''"

section \<open>The walk over the segments\<close>

lemma numbered_append:
  "numbered i j (xs @ ys) = numbered i j xs @ numbered (i + oldCount xs) (j + newCount xs) ys"
proof (induction xs arbitrary: i j)
  case Nil
  then show ?case by (simp add: oldCount_def newCount_def)
next
  case (Cons x xs)
  obtain r l where x: "x = (r, l)" by (cases x)
  show ?case using Cons.IH
    by (cases r) (simp_all add: x oldCount_def newCount_def)
qed

lemma fold_pushInsert:
  "fold pushInsert ls st =
     st\<lparr>hunkChanges := hunkChanges st @ numbered (oldCounter st) (newCounter st) (map (Pair Insert) ls),
        newCounter := newCounter st + length ls,
        addCount := addCount st + length ls\<rparr>"
  by (induction ls arbitrary: st) (simp_all add: pushInsert_def)

lemma fold_pushDelete:
  "fold pushDelete ls st =
     st\<lparr>hunkChanges := hunkChanges st @ numbered (oldCounter st) (newCounter st) (map (Pair Delete) ls),
        oldCounter := oldCounter st + length ls,
        delCount := delCount st + length ls\<rparr>"
  by (induction ls arbitrary: st) (simp_all add: pushDelete_def)

lemma fold_pushNormal:
  "fold pushNormal ls st =
     st\<lparr>hunkChanges := hunkChanges st @ numbered (oldCounter st) (newCounter st) (map (Pair Normal) ls),
        oldCounter := oldCounter st + length ls,
        newCounter := newCounter st + length ls\<rparr>"
  by (induction ls arbitrary: st) (simp_all add: pushNormal_def)

lemma processChange_eq:
  "processChange c st =
     st\<lparr>hunkChanges := hunkChanges st @
           numbered (oldCounter st) (newCounter st) (map (Pair (roleOf c)) (change_lines c)),
        oldCounter := oldCounter st + oldCount (map (Pair (roleOf c)) (change_lines c)),
        newCounter := newCounter st + newCount (map (Pair (roleOf c)) (change_lines c)),
        addCount := addCount st + insCount (map (Pair (roleOf c)) (change_lines c)),
        delCount := delCount st + delsCount (map (Pair (roleOf c)) (change_lines c))\<rparr>"
  by (simp add: processChange_def roleOf_def fold_pushInsert fold_pushDelete fold_pushNormal
      oldCount_def newCount_def insCount_def delsCount_def)

lemma counts_append [simp]:
  "oldCount (xs @ ys) = oldCount xs + oldCount ys"
  "newCount (xs @ ys) = newCount xs + newCount ys"
  "insCount (xs @ ys) = insCount xs + insCount ys"
  "delsCount (xs @ ys) = delsCount xs + delsCount ys"
  by (simp_all add: oldCount_def newCount_def insCount_def delsCount_def)

lemma counts_Nil [simp]:
  "oldCount [] = 0" "newCount [] = 0" "insCount [] = 0" "delsCount [] = 0"
  by (simp_all add: oldCount_def newCount_def insCount_def delsCount_def)

lemma emitted_Cons: "emitted (c # cs) = map (Pair (roleOf c)) (change_lines c) @ emitted cs"
  by (simp add: emitted_def)

lemma emitted_Nil [simp]: "emitted [] = []"
  by (simp add: emitted_def)

lemma fold_processChange:
  "hunkChanges (fold processChange cs st) =
      hunkChanges st @ numbered (oldCounter st) (newCounter st) (emitted cs) \<and>
   oldCounter (fold processChange cs st) = oldCounter st + oldCount (emitted cs) \<and>
   newCounter (fold processChange cs st) = newCounter st + newCount (emitted cs) \<and>
   addCount (fold processChange cs st) = addCount st + insCount (emitted cs) \<and>
   delCount (fold processChange cs st) = delCount st + delsCount (emitted cs)"
proof (induction cs arbitrary: st)
  case Nil
  then show ?case by simp
next
  case (Cons c cs)
  show ?case
    by (simp add: Cons.IH emitted_Cons numbered_append) (simp add: processChange_eq)
qed

lemma walk_fields:
  "hunkChanges (walk cs) = numbered 1 1 (emitted cs)"
  "oldCounter (walk cs) = 1 + oldCount (emitted cs)"
  "newCounter (walk cs) = 1 + newCount (emitted cs)"
  "addCount (walk cs) = insCount (emitted cs)"
  "delCount (walk cs) = delsCount (emitted cs)"
  by (simp_all add: walk_def fold_processChange initState_def)

lemma numbered_roles: "map (\<lambda>l. (ltype l, content l)) (numbered i j xs) = xs"
  by (induction i j xs rule: numbered.induct) simp_all

lemma length_numbered [simp]: "length (numbered i j xs) = length xs"
  by (induction i j xs rule: numbered.induct) simp_all

lemma numbered_Nil_iff [simp]: "numbered i j xs = [] \<longleftrightarrow> xs = []"
  by (metis length_numbered length_0_conv)

lemma oldNumbers_numbered: "oldNumbers (numbered i j xs) = [i ..< i + oldCount xs]"
  by (induction i j xs rule: numbered.induct)
     (simp_all add: oldNumbers_def oldCount_def upt_rec)

lemma newNumbers_numbered: "newNumbers (numbered i j xs) = [j ..< j + newCount xs]"
  by (induction i j xs rule: numbered.induct)
     (simp_all add: newNumbers_def newCount_def upt_rec)

lemma filter_numbered:
  "length (filter (\<lambda>l. P (ltype l, content l)) (numbered i j xs)) = length (filter P xs)"
proof -
  have "filter P xs = filter P (map (\<lambda>l. (ltype l, content l)) (numbered i j xs))"
    by (simp only: numbered_roles)
  then show ?thesis by (simp add: filter_map comp_def)
qed

lemma buildDiff_fields:
  "hunks (fst (buildDiff fn cs)) = (if emitted cs = [] then [] else [mkHunk (walk cs)])"
  "additions (snd (buildDiff fn cs)) = insCount (emitted cs)"
  "deletions (snd (buildDiff fn cs)) = delsCount (emitted cs)"
  by (simp_all add: buildDiff_def Let_def walk_fields)

lemma allChanges_buildDiff: "allChanges (fst (buildDiff fn cs)) = numbered 1 1 (emitted cs)"
  by (simp add: allChanges_def buildDiff_fields mkHunk_def walk_fields)

section \<open>Splitting and line tokens\<close>

lemma split_nl_nonempty [simp]: "split_nl s \<noteq> []"
  by (induction s) (simp_all split: list.splits)

lemma length_split_nl: "length (split_nl s) = Suc (count_list s NL)"
  by (induction s) (auto split: list.splits)

lemma split_nl_append_nl: "split_nl (s @ [NL]) = split_nl s @ [[]]"
  by (induction s) (auto split: list.splits)

lemma last_split_nl: "endsWith_nl s \<Longrightarrow> last (split_nl s) = []"
proof -
  assume "endsWith_nl s"
  then obtain u where "s = u @ [NL]"
    by (metis endsWith_nl_def append_butlast_last_id)
  then show ?thesis by (simp add: split_nl_append_nl)
qed

lemma split_nl_last_nonempty: "s \<noteq> [] \<Longrightarrow> \<not> endsWith_nl s \<Longrightarrow> last (split_nl s) \<noteq> []"
proof (induction s)
  case Nil
  then show ?case by simp
next
  case (Cons c s)
  show ?case
  proof (cases "s = []")
    case True
    with Cons.prems show ?thesis by (simp add: endsWith_nl_def)
  next
    case False
    with Cons.prems have "\<not> endsWith_nl s" by (simp add: endsWith_nl_def)
    with Cons.IH False have "last (split_nl s) \<noteq> []" by simp
    then show ?thesis by (cases "split_nl s") (auto split: if_splits)
  qed
qed

lemma change_lines_cases:
  "change_lines c = (if endsWith_nl (cvalue c) then split_nl (cvalue c)
                     else filter (\<lambda>l. l \<noteq> []) (split_nl (cvalue c)))"
  by (simp add: change_lines_def)

lemma change_lines_Nil_iff: "change_lines c = [] \<longleftrightarrow> cvalue c = []"
proof
  assume e: "change_lines c = []"
  show "cvalue c = []"
  proof (rule ccontr)
    assume n: "cvalue c \<noteq> []"
    show False
    proof (cases "endsWith_nl (cvalue c)")
      case True
      with e show False by (simp add: change_lines_cases)
    next
      case False
      with n have "last (split_nl (cvalue c)) \<noteq> []" by (rule split_nl_last_nonempty)
      moreover have "last (split_nl (cvalue c)) \<in> set (split_nl (cvalue c))" by simp
      ultimately have "last (split_nl (cvalue c)) \<in> set (change_lines c)"
        by (simp add: change_lines_def)
      with e show False by simp
    qed
  qed
next
  assume "cvalue c = []"
  then show "change_lines c = []" by (simp add: change_lines_def endsWith_nl_def)
qed

lemma concat_tokenize [simp]: "concat (tokenize s) = s"
  by (induction s) (auto split: list.splits)

lemma tokenize_Nil_iff [simp]: "tokenize s = [] \<longleftrightarrow> s = []"
  by (cases s) (simp_all split: list.splits)

lemma tokenize_nonempty_tokens: "[] \<notin> set (tokenize s)"
  by (induction s) (auto split: list.splits)

lemma tokenize_ends:
  "endsWith_nl s \<Longrightarrow> t \<in> set (tokenize s) \<Longrightarrow> endsWith_nl t"
proof (induction s arbitrary: t)
  case Nil
  then show ?case by simp
next
  case (Cons c s)
  show ?case
  proof (cases "s = []")
    case True
    with Cons.prems show ?thesis by (auto simp: endsWith_nl_def)
  next
    case False
    with Cons.prems(1) have es: "endsWith_nl s" by (simp add: endsWith_nl_def)
    from False obtain u us where tk: "tokenize s = u # us" by (cases "tokenize s") auto
    have u: "endsWith_nl u" using Cons.IH [OF es] tk by simp
    show ?thesis
    proof (cases "c = NL")
      case True
      with Cons.prems(2) have "t = [NL] \<or> t \<in> set (tokenize s)" by simp
      then show ?thesis using Cons.IH [OF es] by (auto simp: endsWith_nl_def)
    next
      case False
      with Cons.prems(2) tk have "t = c # u \<or> t \<in> set us" by simp
      then show ?thesis using u Cons.IH [OF es] tk by (auto simp: endsWith_nl_def)
    qed
  qed
qed

lemma tokenize_last: "s \<noteq> [] \<Longrightarrow> last (last (tokenize s)) = last s"
proof -
  assume n: "s \<noteq> []"
  then have ne: "tokenize s \<noteq> []" by simp
  have ln: "last (tokenize s) \<noteq> []" using tokenize_nonempty_tokens [of s] ne last_in_set by metis
  have "last (concat (tokenize s)) = last (last (tokenize s))"
    using ne ln by (metis append_butlast_last_id concat.simps(2) concat_append last_appendR append_Nil2 concat.simps(1))
  then show ?thesis by simp
qed

lemma covers_concat: "covers txt segs \<Longrightarrow> concat (map cvalue segs) = txt"
proof -
  assume "covers txt segs"
  then have "concat (concat (map (\<lambda>c. tokenize (cvalue c)) segs)) = concat (tokenize txt)"
    by (simp add: covers_def)
  moreover have "concat (concat (map (\<lambda>c. tokenize (cvalue c)) segs)) = concat (map cvalue segs)"
    by (induction segs) simp_all
  ultimately show ?thesis by simp
qed

section \<open>Lines emitted by the walk\<close>

lemma emitted_iff:
  "(r, l) \<in> set (emitted cs) \<longleftrightarrow> (\<exists>c \<in> set cs. roleOf c = r \<and> l \<in> set (change_lines c))"
  by (auto simp: emitted_def)

lemma emitted_Nil_iff: "emitted cs = [] \<longleftrightarrow> (\<forall>c \<in> set cs. cvalue c = [])"
  by (simp add: emitted_def change_lines_Nil_iff)

lemma insCount_0_iff: "insCount xs = 0 \<longleftrightarrow> (\<forall>x \<in> set xs. fst x \<noteq> Insert)"
  by (simp add: insCount_def filter_empty_conv)

lemma delsCount_0_iff: "delsCount xs = 0 \<longleftrightarrow> (\<forall>x \<in> set xs. fst x \<noteq> Delete)"
  by (simp add: delsCount_def filter_empty_conv)

lemma numbered_member: "l \<in> set (numbered i j xs) \<Longrightarrow> (ltype l, content l) \<in> set xs"
proof -
  assume "l \<in> set (numbered i j xs)"
  then have "(ltype l, content l) \<in> set (map (\<lambda>l. (ltype l, content l)) (numbered i j xs))"
    by simp
  then show ?thesis by (simp only: numbered_roles)
qed

lemma length_filter_pos: "x \<in> set xs \<Longrightarrow> P x \<Longrightarrow> 1 \<le> length (filter P xs)"
  by (induction xs) auto

lemma hunks_Nil_iff: "hunks (fst (buildDiff fn cs)) = [] \<longleftrightarrow> (\<forall>c \<in> set cs. cvalue c = [])"
  by (simp add: buildDiff_fields emitted_Nil_iff)

lemma silent_segment: "cvalue c = [] \<Longrightarrow> change_lines c = []"
  by (simp add: change_lines_Nil_iff)

lemma emptyLines_pos:
  assumes "c \<in> set cs" "roleOf c = r" "[] \<in> set (change_lines c)"
  shows "1 \<le> emptyLines r (fst (buildDiff fn cs))"
proof -
  from assms have m: "(r, []) \<in> set (emitted cs)" unfolding emitted_iff by blast
  have "emptyLines r (fst (buildDiff fn cs))
          = length (filter (\<lambda>x. fst x = r \<and> snd x = []) (emitted cs))"
    using filter_numbered [of "\<lambda>x. fst x = r \<and> snd x = []" 1 1 "emitted cs"]
    by (simp add: emptyLines_def allChanges_buildDiff)
  moreover have "1 \<le> length (filter (\<lambda>x. fst x = r \<and> snd x = []) (emitted cs))"
    using m by (rule length_filter_pos) simp
  ultimately show ?thesis by simp
qed

section \<open>Line-level diffs\<close>

lemma lcs_same: "lcs xs xs = length xs"
  by (induction xs) simp_all

lemma old_side_split:
  "length (concat (map g (filter (\<lambda>c. \<not> added c) cs))) =
     length (concat (map g (filter (\<lambda>c. \<not> added c \<and> \<not> removed c) cs))) +
     length (concat (map g (filter (\<lambda>c. \<not> added c \<and> removed c) cs)))"
  by (induction cs) simp_all

lemma new_side_split:
  "length (concat (map g (filter (\<lambda>c. \<not> removed c) cs))) =
     length (concat (map g (filter (\<lambda>c. \<not> added c \<and> \<not> removed c) cs))) +
     length (concat (map g (filter (\<lambda>c. added c \<and> \<not> removed c) cs)))"
  by (induction cs) simp_all

lemma concat_filter_Nil:
  "length (concat (map g (filter P cs))) = 0 \<longleftrightarrow> (\<forall>c \<in> set cs. P c \<longrightarrow> g c = [])"
  by (induction cs) auto

lemma concat_filter_pos:
  "0 < length (concat (map g (filter P cs))) \<Longrightarrow> \<exists>c \<in> set cs. P c \<and> g c \<noteq> []"
proof (rule ccontr)
  assume p: "0 < length (concat (map g (filter P cs)))"
  assume "\<not> (\<exists>c \<in> set cs. P c \<and> g c \<noteq> [])"
  then have "\<forall>c \<in> set cs. P c \<longrightarrow> g c = []" by blast
  then have "length (concat (map g (filter P cs))) = 0" by (simp only: concat_filter_Nil)
  with p show False by simp
qed

lemma line_diff_old: "is_line_diff old new cs \<Longrightarrow> concat (map cvalue (filter (\<lambda>c. \<not> added c) cs)) = old"
  by (simp add: is_line_diff_def covers_concat)

lemma line_diff_new: "is_line_diff old new cs \<Longrightarrow> concat (map cvalue (filter (\<lambda>c. \<not> removed c) cs)) = new"
  by (simp add: is_line_diff_def covers_concat)

lemma line_diff_old_tokens:
  "is_line_diff old new cs \<Longrightarrow> c \<in> set cs \<Longrightarrow> \<not> added c \<Longrightarrow>
   set (tokenize (cvalue c)) \<subseteq> set (tokenize old)"
proof -
  assume a: "is_line_diff old new cs" "c \<in> set cs" "\<not> added c"
  then have "concat (map (\<lambda>c. tokenize (cvalue c)) (filter (\<lambda>c. \<not> added c) cs)) = tokenize old"
    by (simp add: is_line_diff_def covers_def)
  then have "set (tokenize old) = set (concat (map (\<lambda>c. tokenize (cvalue c)) (filter (\<lambda>c. \<not> added c) cs)))"
    by simp
  with a(2,3) show ?thesis by auto
qed

lemma line_diff_new_tokens:
  "is_line_diff old new cs \<Longrightarrow> c \<in> set cs \<Longrightarrow> \<not> removed c \<Longrightarrow>
   set (tokenize (cvalue c)) \<subseteq> set (tokenize new)"
proof -
  assume a: "is_line_diff old new cs" "c \<in> set cs" "\<not> removed c"
  then have "concat (map (\<lambda>c. tokenize (cvalue c)) (filter (\<lambda>c. \<not> removed c) cs)) = tokenize new"
    by (simp add: is_line_diff_def covers_def)
  then have "set (tokenize new) = set (concat (map (\<lambda>c. tokenize (cvalue c)) (filter (\<lambda>c. \<not> removed c) cs)))"
    by simp
  with a(2,3) show ?thesis by auto
qed

lemma line_diff_old_token_owner:
  "is_line_diff old new cs \<Longrightarrow> t \<in> set (tokenize old) \<Longrightarrow>
   \<exists>c \<in> set cs. \<not> added c \<and> t \<in> set (tokenize (cvalue c))"
proof -
  assume a: "is_line_diff old new cs" "t \<in> set (tokenize old)"
  then have "concat (map (\<lambda>c. tokenize (cvalue c)) (filter (\<lambda>c. \<not> added c) cs)) = tokenize old"
    by (simp add: is_line_diff_def covers_def)
  with a(2) have "t \<in> set (concat (map (\<lambda>c. tokenize (cvalue c)) (filter (\<lambda>c. \<not> added c) cs)))"
    by simp
  then show ?thesis by auto
qed

lemma line_diff_wf: "is_line_diff old new cs \<Longrightarrow> c \<in> set cs \<Longrightarrow> added c \<Longrightarrow> \<not> removed c"
  by (auto simp: is_line_diff_def list_all_iff)

lemma terminated_segment:
  assumes "cvalue c \<noteq> []" "set (tokenize (cvalue c)) \<subseteq> set (tokenize txt)" "endsWith_nl txt"
  shows "[] \<in> set (change_lines c)"
proof -
  from assms(1) have ne: "tokenize (cvalue c) \<noteq> []" by simp
  then have "last (tokenize (cvalue c)) \<in> set (tokenize txt)" using assms(2) last_in_set by blast
  with assms(3) have "endsWith_nl (last (tokenize (cvalue c)))" by (rule tokenize_ends)
  then have "last (last (tokenize (cvalue c))) = NL" by (simp add: endsWith_nl_def)
  with assms(1) have e: "endsWith_nl (cvalue c)" by (simp add: tokenize_last endsWith_nl_def)
  then have "last (split_nl (cvalue c)) = []" by (rule last_split_nl)
  moreover have "last (split_nl (cvalue c)) \<in> set (split_nl (cvalue c))" by simp
  ultimately have "[] \<in> set (split_nl (cvalue c))" by simp
  with e show ?thesis by (simp add: change_lines_cases)
qed

lemma added_newline_surfaces:
  assumes "is_line_diff t (t @ [NL]) cs"
  shows "1 \<le> emptyLines Insert (fst (buildDiff fn cs))"
proof -
  have o: "length (concat (map cvalue (filter (\<lambda>c. \<not> added c) cs))) = length t"
    using line_diff_old [OF assms] by simp
  have n: "length (concat (map cvalue (filter (\<lambda>c. \<not> removed c) cs))) = Suc (length t)"
    using line_diff_new [OF assms] by simp
  from o n old_side_split [of cvalue cs] new_side_split [of cvalue cs]
  have "0 < length (concat (map cvalue (filter (\<lambda>c. added c \<and> \<not> removed c) cs)))" by linarith
  then obtain c where c: "c \<in> set cs" "added c" "\<not> removed c" "cvalue c \<noteq> []"
    using concat_filter_pos [of cvalue "\<lambda>c. added c \<and> \<not> removed c" cs] by blast
  have "set (tokenize (cvalue c)) \<subseteq> set (tokenize (t @ [NL]))"
    using assms c(1,3) by (rule line_diff_new_tokens)
  moreover have "endsWith_nl (t @ [NL])" by (simp add: endsWith_nl_def)
  ultimately have "[] \<in> set (change_lines c)" using c(4) terminated_segment by blast
  moreover from c(2) have "roleOf c = Insert" by (simp add: roleOf_def)
  ultimately show ?thesis using c(1) emptyLines_pos by blast
qed

lemma removed_newline_surfaces:
  assumes "is_line_diff (t @ [NL]) t cs"
  shows "1 \<le> emptyLines Delete (fst (buildDiff fn cs))"
proof -
  have o: "length (concat (map cvalue (filter (\<lambda>c. \<not> added c) cs))) = Suc (length t)"
    using line_diff_old [OF assms] by simp
  have n: "length (concat (map cvalue (filter (\<lambda>c. \<not> removed c) cs))) = length t"
    using line_diff_new [OF assms] by simp
  from o n old_side_split [of cvalue cs] new_side_split [of cvalue cs]
  have "0 < length (concat (map cvalue (filter (\<lambda>c. \<not> added c \<and> removed c) cs)))" by linarith
  then obtain c where c: "c \<in> set cs" "\<not> added c" "removed c" "cvalue c \<noteq> []"
    using concat_filter_pos [of cvalue "\<lambda>c. \<not> added c \<and> removed c" cs] by blast
  have "set (tokenize (cvalue c)) \<subseteq> set (tokenize (t @ [NL]))"
    using assms c(1,2) by (rule line_diff_old_tokens)
  moreover have "endsWith_nl (t @ [NL])" by (simp add: endsWith_nl_def)
  ultimately have "[] \<in> set (change_lines c)" using c(4) terminated_segment by blast
  moreover from c(2,3) have "roleOf c = Delete" by (simp add: roleOf_def)
  ultimately show ?thesis using c(1) emptyLines_pos by blast
qed

lemma scenario_deletes:
  assumes "is_line_diff ''line1\<newline>line2'' ''line1\<newline>line2\<newline>line3'' cs"
  shows "1 \<le> deletions (snd (buildDiff fn cs))"
proof -
  have "''line2'' \<in> set (tokenize ''line1\<newline>line2'')" by code_simp
  with assms obtain c where c: "c \<in> set cs" "\<not> added c" "''line2'' \<in> set (tokenize (cvalue c))"
    using line_diff_old_token_owner by blast
  have nn: "''line2'' \<notin> set (tokenize ''line1\<newline>line2\<newline>line3'')" by code_simp
  have "removed c"
  proof (rule ccontr)
    assume "\<not> removed c"
    with assms c(1) have "set (tokenize (cvalue c)) \<subseteq> set (tokenize ''line1\<newline>line2\<newline>line3'')"
      by (rule line_diff_new_tokens)
    with c(3) nn show False by blast
  qed
  with c(2) have r: "roleOf c = Delete" by (simp add: roleOf_def)
  from c(3) have "cvalue c \<noteq> []" by auto
  then have "change_lines c \<noteq> []" by (simp add: change_lines_Nil_iff)
  then obtain l where "l \<in> set (change_lines c)" by (cases "change_lines c") auto
  with c(1) r have m: "(Delete, l) \<in> set (emitted cs)" unfolding emitted_iff by blast
  have "1 \<le> length (filter (\<lambda>x. fst x = Delete) (emitted cs))"
    using m by (rule length_filter_pos) simp
  then show ?thesis by (simp add: buildDiff_fields delsCount_def)
qed

section \<open>The last line and its line feed\<close>

lemma lcs_prefix: "lcs (xs @ ys) (xs @ zs) = length xs + lcs ys zs"
  by (induction xs) simp_all

lemma length_tokenize:
  "length (tokenize s) = count_list s NL + (if s = [] \<or> endsWith_nl s then 0 else 1)"
proof (induction s)
  case Nil
  then show ?case by simp
next
  case (Cons c s)
  show ?case
  proof (cases "s = []")
    case True
    then show ?thesis by (simp add: endsWith_nl_def)
  next
    case False
    then have e: "endsWith_nl (c # s) = endsWith_nl s" by (simp add: endsWith_nl_def)
    from False obtain u us where tk: "tokenize s = u # us" by (cases "tokenize s") auto
    show ?thesis using Cons.IH False e tk by simp
  qed
qed

lemma tokenize_snoc:
  "tokenize (t @ [NL]) =
     (if t = [] \<or> endsWith_nl t then tokenize t @ [[NL]]
      else butlast (tokenize t) @ [last (tokenize t) @ [NL]])"
proof (induction t)
  case Nil
  then show ?case by simp
next
  case (Cons c t)
  show ?case
  proof (cases "t = []")
    case True
    then show ?thesis by (simp add: endsWith_nl_def)
  next
    case False
    then have e: "endsWith_nl (c # t) = endsWith_nl t" by (simp add: endsWith_nl_def)
    from False obtain u us where tk: "tokenize t = u # us" by (cases "tokenize t") auto
    show ?thesis
    proof (cases "endsWith_nl t")
      case True
      with Cons.IH False e tk show ?thesis by simp
    next
      case nt: False
      with Cons.IH False have ih: "tokenize (t @ [NL]) = butlast (u # us) @ [last (u # us) @ [NL]]"
        by (simp add: tk)
      show ?thesis
      proof (cases us)
        case Nil
        with ih tk nt e False show ?thesis by simp
      next
        case (Cons v vs)
        with ih tk nt e False show ?thesis by simp
      qed
    qed
  qed
qed

lemma split_nl_no_nl: "count_list u NL = 0 \<Longrightarrow> split_nl u = [u]"
  by (induction u) (auto split: if_splits)

lemma lcs_trailing:
  "lcs (tokenize t) (tokenize (t @ [NL])) = count_list t NL"
  "lcs (tokenize (t @ [NL])) (tokenize t) = count_list t NL"
proof -
  let ?T = "tokenize t"
  show "lcs ?T (tokenize (t @ [NL])) = count_list t NL"
  proof (cases "t = [] \<or> endsWith_nl t")
    case True
    then have "tokenize (t @ [NL]) = ?T @ [[NL]]" by (simp add: tokenize_snoc)
    then have "lcs ?T (tokenize (t @ [NL])) = lcs (?T @ []) (?T @ [[NL]])" by simp
    also have "\<dots> = length ?T" by (simp only: lcs_prefix) simp
    finally show ?thesis using True by (simp add: length_tokenize)
  next
    case False
    then have ne: "?T \<noteq> []" by simp
    from False have s: "tokenize (t @ [NL]) = butlast ?T @ [last ?T @ [NL]]"
      by (simp add: tokenize_snoc)
    have "lcs ?T (tokenize (t @ [NL])) = lcs (butlast ?T @ [last ?T]) (butlast ?T @ [last ?T @ [NL]])"
      using ne s by simp
    also have "\<dots> = length (butlast ?T)" by (simp only: lcs_prefix) simp
    finally show ?thesis using False ne by (simp add: length_tokenize)
  qed
  show "lcs (tokenize (t @ [NL])) ?T = count_list t NL"
  proof (cases "t = [] \<or> endsWith_nl t")
    case True
    then have "tokenize (t @ [NL]) = ?T @ [[NL]]" by (simp add: tokenize_snoc)
    then have "lcs (tokenize (t @ [NL])) ?T = lcs (?T @ [[NL]]) (?T @ [])" by simp
    also have "\<dots> = length ?T" by (simp only: lcs_prefix) simp
    finally show ?thesis using True by (simp add: length_tokenize)
  next
    case False
    then have ne: "?T \<noteq> []" by simp
    from False have s: "tokenize (t @ [NL]) = butlast ?T @ [last ?T @ [NL]]"
      by (simp add: tokenize_snoc)
    have "lcs (tokenize (t @ [NL])) ?T = lcs (butlast ?T @ [last ?T @ [NL]]) (butlast ?T @ [last ?T])"
      using ne s by simp
    also have "\<dots> = length (butlast ?T)" by (simp only: lcs_prefix) simp
    finally show ?thesis using False ne by (simp add: length_tokenize)
  qed
qed

lemma single_decomp:
  "length (concat (map h xs)) = 1 \<Longrightarrow>
   \<exists>pre y post. xs = pre @ y # post \<and> (\<forall>z \<in> set pre. h z = []) \<and>
      (\<forall>z \<in> set post. h z = []) \<and> length (h y) = 1"
proof (induction xs)
  case Nil
  then show ?case by simp
next
  case (Cons x xs)
  show ?case
  proof (cases "h x = []")
    case True
    with Cons.prems have "length (concat (map h xs)) = 1" by simp
    from Cons.IH [OF this] obtain pre y post where
      d: "xs = pre @ y # post" "\<forall>z \<in> set pre. h z = []" "\<forall>z \<in> set post. h z = []"
         "length (h y) = 1" by blast
    from d True have "x # xs = (x # pre) @ y # post \<and> (\<forall>z \<in> set (x # pre). h z = []) \<and>
       (\<forall>z \<in> set post. h z = []) \<and> length (h y) = 1" by simp
    then show ?thesis by blast
  next
    case False
    then have p: "0 < length (h x)" by simp
    from Cons.prems have q: "length (h x) + length (concat (map h xs)) = 1" by simp
    from p q have l: "length (h x) = 1" by linarith
    from p q have r: "length (concat (map h xs)) = 0" by linarith
    from r have "\<forall>z \<in> set xs. h z = []" by simp
    with l have "x # xs = [] @ x # xs \<and> (\<forall>z \<in> set []. h z = []) \<and>
       (\<forall>z \<in> set xs. h z = []) \<and> length (h x) = 1" by simp
    then show ?thesis by blast
  qed
qed

lemma blankLines_empty: "cvalue c = [] \<Longrightarrow> blankLines c = 0"
  using change_lines_Nil_iff [of c] by (simp add: blankLines_def)

lemma blankLines_single:
  assumes "length (tokenize (cvalue c)) = 1" "endsWith_nl (cvalue c)"
  shows "blankLines c = (if length (cvalue c) = 1 then 2 else 1)"
proof -
  from assms(2) obtain u where x: "cvalue c = u @ [NL]"
    by (metis endsWith_nl_def append_butlast_last_id)
  from assms have "count_list (cvalue c) NL = 1" by (simp add: length_tokenize)
  with x have "count_list u NL = 0" by simp
  then have "split_nl u = [u]" by (rule split_nl_no_nl)
  with x have "split_nl (cvalue c) = [u, []]" by (simp add: split_nl_append_nl)
  with assms(2) have "change_lines c = [u, []]" by (simp add: change_lines_cases)
  with x show ?thesis by (simp add: blankLines_def)
qed

lemma lone_token_blank_lines:
  assumes one: "length (concat (map (\<lambda>c. tokenize (cvalue c)) (filter P cs))) = 1"
      and trm: "\<And>c. c \<in> set cs \<Longrightarrow> P c \<Longrightarrow> cvalue c \<noteq> [] \<Longrightarrow> endsWith_nl (cvalue c)"
  shows "sum_list (map blankLines (filter P cs))
           = (if length (concat (map cvalue (filter P cs))) = 1 then 2 else 1)"
proof -
  from single_decomp [OF one] obtain pre y post where
    d: "filter P cs = pre @ y # post" "\<forall>z \<in> set pre. tokenize (cvalue z) = []"
       "\<forall>z \<in> set post. tokenize (cvalue z) = []" "length (tokenize (cvalue y)) = 1"
    by blast
  from d(2,3) have e: "\<forall>z \<in> set pre. cvalue z = []" "\<forall>z \<in> set post. cvalue z = []"
    by simp_all
  have "y \<in> set (filter P cs)" by (simp add: d(1))
  then have y: "y \<in> set cs" "P y" by simp_all
  from d(4) have "cvalue y \<noteq> []" by auto
  with y have t: "endsWith_nl (cvalue y)" by (rule trm)
  have s: "sum_list (map blankLines (filter P cs)) = blankLines y"
    using e by (simp add: d(1) blankLines_empty)
  have c: "length (concat (map cvalue (filter P cs))) = length (cvalue y)"
    using e by (simp add: d(1))
  from s c blankLines_single [OF d(4) t] show ?thesis by simp
qed

lemma emptyLines_sum:
  "emptyLines r (fst (buildDiff fn cs))
     = sum_list (map blankLines (filter (\<lambda>c. roleOf c = r) cs))"
proof -
  have "emptyLines r (fst (buildDiff fn cs))
          = length (filter (\<lambda>x. fst x = r \<and> snd x = []) (emitted cs))"
    using filter_numbered [of "\<lambda>x. fst x = r \<and> snd x = []" 1 1 "emitted cs"]
    by (simp add: emptyLines_def allChanges_buildDiff)
  also have "\<dots> = sum_list (map blankLines (filter (\<lambda>c. roleOf c = r) cs))"
    by (induction cs) (simp_all add: emitted_Cons blankLines_def filter_map comp_def)
  finally show ?thesis .
qed

lemma terminated_value:
  assumes "cvalue c \<noteq> []" "set (tokenize (cvalue c)) \<subseteq> set (tokenize txt)" "endsWith_nl txt"
  shows "endsWith_nl (cvalue c)"
proof -
  from assms(1) have ne: "tokenize (cvalue c) \<noteq> []" by simp
  then have "last (tokenize (cvalue c)) \<in> set (tokenize txt)" using assms(2) last_in_set by blast
  with assms(3) have "endsWith_nl (last (tokenize (cvalue c)))" by (rule tokenize_ends)
  then have "last (last (tokenize (cvalue c))) = NL" by (simp add: endsWith_nl_def)
  with assms(1) show ?thesis by (simp add: tokenize_last endsWith_nl_def)
qed

lemma added_newline_exact:
  assumes "is_lcs_diff t (t @ [NL]) cs"
  shows "emptyLines Insert (fst (buildDiff fn cs)) = (if t = [] \<or> endsWith_nl t then 2 else 1)"
proof -
  let ?tok = "\<lambda>c. tokenize (cvalue c)"
  let ?U = "\<lambda>c. \<not> added c \<and> \<not> removed c"
  let ?R = "\<lambda>c. \<not> added c \<and> removed c"
  let ?A = "\<lambda>c. added c \<and> \<not> removed c"
  from assms have ld: "is_line_diff t (t @ [NL]) cs" by (simp add: is_lcs_diff_def)
  from assms have u: "length (concat (map ?tok (filter ?U cs))) = count_list t NL"
    by (simp add: is_lcs_diff_def lcs_trailing)
  from ld have o: "length (concat (map ?tok (filter (\<lambda>c. \<not> added c) cs))) = length (tokenize t)"
    by (simp add: is_line_diff_def covers_def)
  from ld have n: "length (concat (map ?tok (filter (\<lambda>c. \<not> removed c) cs)))
                     = Suc (count_list t NL)"
    by (simp add: is_line_diff_def covers_def length_tokenize endsWith_nl_def)
  from u n new_side_split [of ?tok cs]
  have ad: "length (concat (map ?tok (filter ?A cs))) = 1" by simp
  from u o old_side_split [of ?tok cs]
  have rm: "length (concat (map ?tok (filter ?R cs)))
              = (if t = [] \<or> endsWith_nl t then 0 else 1)"
    by (simp add: length_tokenize)
  have oc: "length (concat (map cvalue (filter (\<lambda>c. \<not> added c) cs))) = length t"
    using line_diff_old [OF ld] by simp
  have nc: "length (concat (map cvalue (filter (\<lambda>c. \<not> removed c) cs))) = Suc (length t)"
    using line_diff_new [OF ld] by simp
  from oc nc old_side_split [of cvalue cs] new_side_split [of cvalue cs]
  have ch: "length (concat (map cvalue (filter ?A cs)))
              = Suc (length (concat (map cvalue (filter ?R cs))))" by linarith
  have rc: "length (concat (map cvalue (filter ?R cs))) = 0 \<longleftrightarrow> t = [] \<or> endsWith_nl t"
  proof -
    have "length (concat (map cvalue (filter ?R cs))) = 0
            \<longleftrightarrow> length (concat (map ?tok (filter ?R cs))) = 0"
      by (simp only: concat_filter_Nil tokenize_Nil_iff)
    with rm show ?thesis by simp
  qed
  have trm: "endsWith_nl (cvalue c)" if "c \<in> set cs" "?A c" "cvalue c \<noteq> []" for c
  proof -
    from that(2) have "\<not> removed c" by simp
    with ld that(1) have "set (tokenize (cvalue c)) \<subseteq> set (tokenize (t @ [NL]))"
      by (rule line_diff_new_tokens)
    moreover have "endsWith_nl (t @ [NL])" by (simp add: endsWith_nl_def)
    ultimately show ?thesis using that(3) terminated_value by blast
  qed
  have "filter (\<lambda>c. roleOf c = Insert) cs = filter ?A cs"
  proof (rule filter_cong [OF refl])
    fix c assume "c \<in> set cs"
    with line_diff_wf [OF ld] show "(roleOf c = Insert) = (added c \<and> \<not> removed c)"
      by (auto simp: roleOf_def)
  qed
  then have "emptyLines Insert (fst (buildDiff fn cs)) = sum_list (map blankLines (filter ?A cs))"
    by (simp add: emptyLines_sum)
  also have "\<dots> = (if length (concat (map cvalue (filter ?A cs))) = 1 then 2 else 1)"
    using ad trm by (rule lone_token_blank_lines)
  also have "\<dots> = (if t = [] \<or> endsWith_nl t then 2 else 1)"
    using ch rc by auto
  finally show ?thesis .
qed

lemma removed_newline_exact:
  assumes "is_lcs_diff (t @ [NL]) t cs"
  shows "emptyLines Delete (fst (buildDiff fn cs)) = (if t = [] \<or> endsWith_nl t then 2 else 1)"
proof -
  let ?tok = "\<lambda>c. tokenize (cvalue c)"
  let ?U = "\<lambda>c. \<not> added c \<and> \<not> removed c"
  let ?R = "\<lambda>c. \<not> added c \<and> removed c"
  let ?A = "\<lambda>c. added c \<and> \<not> removed c"
  from assms have ld: "is_line_diff (t @ [NL]) t cs" by (simp add: is_lcs_diff_def)
  from assms have u: "length (concat (map ?tok (filter ?U cs))) = count_list t NL"
    by (simp add: is_lcs_diff_def lcs_trailing)
  from ld have n: "length (concat (map ?tok (filter (\<lambda>c. \<not> removed c) cs))) = length (tokenize t)"
    by (simp add: is_line_diff_def covers_def)
  from ld have o: "length (concat (map ?tok (filter (\<lambda>c. \<not> added c) cs)))
                     = Suc (count_list t NL)"
    by (simp add: is_line_diff_def covers_def length_tokenize endsWith_nl_def)
  from u o old_side_split [of ?tok cs]
  have rm: "length (concat (map ?tok (filter ?R cs))) = 1" by simp
  from u n new_side_split [of ?tok cs]
  have ad: "length (concat (map ?tok (filter ?A cs)))
              = (if t = [] \<or> endsWith_nl t then 0 else 1)"
    by (simp add: length_tokenize)
  have nc: "length (concat (map cvalue (filter (\<lambda>c. \<not> removed c) cs))) = length t"
    using line_diff_new [OF ld] by simp
  have oc: "length (concat (map cvalue (filter (\<lambda>c. \<not> added c) cs))) = Suc (length t)"
    using line_diff_old [OF ld] by simp
  from oc nc old_side_split [of cvalue cs] new_side_split [of cvalue cs]
  have ch: "length (concat (map cvalue (filter ?R cs)))
              = Suc (length (concat (map cvalue (filter ?A cs))))" by linarith
  have ac: "length (concat (map cvalue (filter ?A cs))) = 0 \<longleftrightarrow> t = [] \<or> endsWith_nl t"
  proof -
    have "length (concat (map cvalue (filter ?A cs))) = 0
            \<longleftrightarrow> length (concat (map ?tok (filter ?A cs))) = 0"
      by (simp only: concat_filter_Nil tokenize_Nil_iff)
    with ad show ?thesis by simp
  qed
  have trm: "endsWith_nl (cvalue c)" if "c \<in> set cs" "?R c" "cvalue c \<noteq> []" for c
  proof -
    from that(2) have "\<not> added c" by simp
    with ld that(1) have "set (tokenize (cvalue c)) \<subseteq> set (tokenize (t @ [NL]))"
      by (rule line_diff_old_tokens)
    moreover have "endsWith_nl (t @ [NL])" by (simp add: endsWith_nl_def)
    ultimately show ?thesis using that(3) terminated_value by blast
  qed
  have "filter (\<lambda>c. roleOf c = Delete) cs = filter ?R cs"
    by (rule filter_cong [OF refl]) (auto simp: roleOf_def)
  then have "emptyLines Delete (fst (buildDiff fn cs)) = sum_list (map blankLines (filter ?R cs))"
    by (simp add: emptyLines_sum)
  also have "\<dots> = (if length (concat (map cvalue (filter ?R cs))) = 1 then 2 else 1)"
    using rm trm by (rule lone_token_blank_lines)
  also have "\<dots> = (if t = [] \<or> endsWith_nl t then 2 else 1)"
    using ch ac by auto
  finally show ?thesis .
qed

lemma blankLines_unterminated: "\<not> endsWith_nl (cvalue c) \<Longrightarrow> blankLines c = 0"
  by (simp add: blankLines_def change_lines_cases)

lemma lone_unterminated:
  assumes cnt: "length (concat (map (\<lambda>c. tokenize (cvalue c)) (filter P cs))) = (if a then 0 else 1)"
      and own: "\<not> a \<Longrightarrow> \<exists>c \<in> set cs. P c \<and> (\<exists>l \<in> set (tokenize (cvalue c)). \<not> endsWith_nl l)"
  shows "sum_list (map blankLines (filter P cs)) = 0"
proof (cases a)
  case True
  with cnt have "length (concat (map (\<lambda>c. tokenize (cvalue c)) (filter P cs))) = 0" by simp
  then have "\<forall>c \<in> set cs. P c \<longrightarrow> cvalue c = []"
    by (simp only: concat_filter_Nil tokenize_Nil_iff)
  then have "\<forall>c \<in> set (filter P cs). blankLines c = 0" by (simp add: blankLines_empty)
  then show ?thesis by (simp add: sum_list_eq_0_iff)
next
  case False
  with cnt have one: "length (concat (map (\<lambda>c. tokenize (cvalue c)) (filter P cs))) = 1" by simp
  from single_decomp [OF one] obtain pre y post where
    d: "filter P cs = pre @ y # post" "\<forall>z \<in> set pre. tokenize (cvalue z) = []"
       "\<forall>z \<in> set post. tokenize (cvalue z) = []" "length (tokenize (cvalue y)) = 1"
    by blast
  from d(2,3) have e: "\<forall>z \<in> set pre. cvalue z = []" "\<forall>z \<in> set post. cvalue z = []"
    by simp_all
  from own [OF False] obtain c l where
    c: "c \<in> set cs" "P c" "l \<in> set (tokenize (cvalue c))" "\<not> endsWith_nl l" by blast
  from c(1,2) have "c \<in> set (pre @ y # post)" by (simp add: d(1) [symmetric])
  moreover from c(3) have "tokenize (cvalue c) \<noteq> []" by auto
  ultimately have cy: "c = y" using d(2,3) by auto
  from d(4) obtain x where x: "tokenize (cvalue y) = [x]"
    by (cases "tokenize (cvalue y)") auto
  with c(3) cy have "x = l" by simp
  with x have "concat (tokenize (cvalue y)) = l" by simp
  then have "cvalue y = l" by simp
  with c(4) have "blankLines y = 0" by (simp add: blankLines_unterminated)
  with e show ?thesis by (simp add: d(1) blankLines_empty)
qed

lemma unterminated_last_token:
  assumes "t \<noteq> []" "\<not> endsWith_nl t"
  shows "last (tokenize t) \<in> set (tokenize t) \<and> \<not> endsWith_nl (last (tokenize t))"
proof -
  from assms(1) have "tokenize t \<noteq> []" by simp
  then have m: "last (tokenize t) \<in> set (tokenize t)" by simp
  from assms have "last (last (tokenize t)) \<noteq> NL" by (simp add: tokenize_last endsWith_nl_def)
  then have "\<not> endsWith_nl (last (tokenize t))" by (simp add: endsWith_nl_def)
  with m show ?thesis by simp
qed

lemma added_newline_no_deleted_blank:
  assumes "is_lcs_diff t (t @ [NL]) cs"
  shows "emptyLines Delete (fst (buildDiff fn cs)) = 0"
proof -
  let ?tok = "\<lambda>c. tokenize (cvalue c)"
  let ?U = "\<lambda>c. \<not> added c \<and> \<not> removed c"
  let ?R = "\<lambda>c. \<not> added c \<and> removed c"
  from assms have ld: "is_line_diff t (t @ [NL]) cs" by (simp add: is_lcs_diff_def)
  from assms have u: "length (concat (map ?tok (filter ?U cs))) = count_list t NL"
    by (simp add: is_lcs_diff_def lcs_trailing)
  from ld have o: "length (concat (map ?tok (filter (\<lambda>c. \<not> added c) cs))) = length (tokenize t)"
    by (simp add: is_line_diff_def covers_def)
  from u o old_side_split [of ?tok cs]
  have rm: "length (concat (map ?tok (filter ?R cs)))
              = (if t = [] \<or> endsWith_nl t then 0 else 1)"
    by (simp add: length_tokenize)
  have own: "\<exists>c \<in> set cs. ?R c \<and> (\<exists>l \<in> set (tokenize (cvalue c)). \<not> endsWith_nl l)"
    if "\<not> (t = [] \<or> endsWith_nl t)"
  proof -
    from that have l: "last (tokenize t) \<in> set (tokenize t)" "\<not> endsWith_nl (last (tokenize t))"
      using unterminated_last_token [of t] by simp_all
    from line_diff_old_token_owner [OF ld l(1)] obtain c where
      c: "c \<in> set cs" "\<not> added c" "last (tokenize t) \<in> set (tokenize (cvalue c))" by blast
    have "removed c"
    proof (rule ccontr)
      assume "\<not> removed c"
      with ld c(1) have "set (tokenize (cvalue c)) \<subseteq> set (tokenize (t @ [NL]))"
        by (rule line_diff_new_tokens)
      with c(3) have "last (tokenize t) \<in> set (tokenize (t @ [NL]))" by blast
      moreover have "endsWith_nl (t @ [NL])" by (simp add: endsWith_nl_def)
      ultimately have "endsWith_nl (last (tokenize t))" using tokenize_ends by blast
      with l(2) show False by simp
    qed
    with c l(2) show ?thesis by blast
  qed
  have "filter (\<lambda>c. roleOf c = Delete) cs = filter ?R cs"
    by (rule filter_cong [OF refl]) (auto simp: roleOf_def)
  then have "emptyLines Delete (fst (buildDiff fn cs)) = sum_list (map blankLines (filter ?R cs))"
    by (simp add: emptyLines_sum)
  also have "\<dots> = 0" using rm own by (rule lone_unterminated)
  finally show ?thesis .
qed

lemma removed_newline_no_inserted_blank:
  assumes "is_lcs_diff (t @ [NL]) t cs"
  shows "emptyLines Insert (fst (buildDiff fn cs)) = 0"
proof -
  let ?tok = "\<lambda>c. tokenize (cvalue c)"
  let ?U = "\<lambda>c. \<not> added c \<and> \<not> removed c"
  let ?A = "\<lambda>c. added c \<and> \<not> removed c"
  from assms have ld: "is_line_diff (t @ [NL]) t cs" by (simp add: is_lcs_diff_def)
  from assms have u: "length (concat (map ?tok (filter ?U cs))) = count_list t NL"
    by (simp add: is_lcs_diff_def lcs_trailing)
  from ld have n: "length (concat (map ?tok (filter (\<lambda>c. \<not> removed c) cs))) = length (tokenize t)"
    by (simp add: is_line_diff_def covers_def)
  from u n new_side_split [of ?tok cs]
  have ad: "length (concat (map ?tok (filter ?A cs)))
              = (if t = [] \<or> endsWith_nl t then 0 else 1)"
    by (simp add: length_tokenize)
  have tk: "concat (map ?tok (filter (\<lambda>c. \<not> removed c) cs)) = tokenize t"
    using ld by (simp add: is_line_diff_def covers_def)
  have own: "\<exists>c \<in> set cs. ?A c \<and> (\<exists>l \<in> set (tokenize (cvalue c)). \<not> endsWith_nl l)"
    if "\<not> (t = [] \<or> endsWith_nl t)"
  proof -
    from that have l: "last (tokenize t) \<in> set (tokenize t)" "\<not> endsWith_nl (last (tokenize t))"
      using unterminated_last_token [of t] by simp_all
    from l(1) have "last (tokenize t) \<in> set (concat (map ?tok (filter (\<lambda>c. \<not> removed c) cs)))"
      by (simp only: tk)
    then obtain c where
      c: "c \<in> set cs" "\<not> removed c" "last (tokenize t) \<in> set (tokenize (cvalue c))" by auto
    have "added c"
    proof (rule ccontr)
      assume "\<not> added c"
      with ld c(1) have "set (tokenize (cvalue c)) \<subseteq> set (tokenize (t @ [NL]))"
        by (rule line_diff_old_tokens)
      with c(3) have "last (tokenize t) \<in> set (tokenize (t @ [NL]))" by blast
      moreover have "endsWith_nl (t @ [NL])" by (simp add: endsWith_nl_def)
      ultimately have "endsWith_nl (last (tokenize t))" using tokenize_ends by blast
      with l(2) show False by simp
    qed
    with c l(2) show ?thesis by blast
  qed
  have "filter (\<lambda>c. roleOf c = Insert) cs = filter ?A cs"
  proof (rule filter_cong [OF refl])
    fix c assume "c \<in> set cs"
    with line_diff_wf [OF ld] show "(roleOf c = Insert) = (added c \<and> \<not> removed c)"
      by (auto simp: roleOf_def)
  qed
  then have "emptyLines Insert (fst (buildDiff fn cs)) = sum_list (map blankLines (filter ?A cs))"
    by (simp add: emptyLines_sum)
  also have "\<dots> = 0" using ad own by (rule lone_unterminated)
  finally show ?thesis .
qed

section \<open>Looking up a version\<close>

lemma findIndex_None: "findIndex contents i = None \<longleftrightarrow> (\<forall>c \<in> set contents. Some (index c) \<noteq> i)"
  by (auto simp: findIndex_def find_None_iff)

lemma findIndex_Some: "findIndex contents i = Some c \<Longrightarrow> c \<in> set contents \<and> Some (index c) = i"
  by (auto simp: findIndex_def find_Some_iff)

lemma findIndex_distinct:
  "distinct (map index contents) \<Longrightarrow> p \<in> set contents \<Longrightarrow> Some (index p) = i \<Longrightarrow>
   findIndex contents i = Some p"
proof (induction contents)
  case Nil
  then show ?case by simp
next
  case (Cons c contents)
  show ?case
  proof (cases "p = c")
    case True
    with Cons.prems show ?thesis by (simp add: findIndex_def)
  next
    case False
    with Cons.prems have p: "p \<in> set contents" by simp
    with Cons.prems have "index c \<noteq> index p" by auto
    moreover have "findIndex contents i = Some p"
      using Cons.IH Cons.prems p by simp
    ultimately show ?thesis using Cons.prems(3) by (auto simp: findIndex_def)
  qed
qed

lemma resolve_found:
  assumes "findIndex contents (Some (artifactIndex info)) = Some cur"
  shows "resolve contents info =
     Inr \<lparr>oldText =
            (if changeType info = Create then []
             else (case findIndex contents (previousIndex info) of
                     None \<Rightarrow> []
                   | Some p \<Rightarrow> if ctype p = ctype cur then body p else [])),
          newText = body cur, fileName = titleOrUntitled cur\<rparr>"
proof (cases "changeType info")
  case Create
  with assms show ?thesis
    by (cases cur) (simp_all add: resolve_def body_def)
next
  case Update
  show ?thesis
  proof (cases "findIndex contents (previousIndex info)")
    case None
    with Update assms show ?thesis
      by (cases cur) (simp_all add: resolve_def body_def)
  next
    case (Some p)
    with Update assms show ?thesis
      by (cases cur; cases p) (simp_all add: resolve_def body_def)
  qed
qed

section \<open>Identical texts\<close>

text \<open>
  Identical texts that are not empty do give a hunk: the line diff of "a" with itself is
  the one unchanged segment "a", whose line is emitted as an unchanged line change, so
  the result has one hunk and not zero.
\<close>

theorem identical_texts_counterexample:
  "is_lcs_diff ''a'' ''a'' [unchangedSeg ''a''] \<and>
   length (hunks (fst (buildDiff ''Untitled'' [unchangedSeg ''a'']))) = 1"
  by code_simp

text \<open>
  C1 (amended): for every text \<open>A\<close> and every longest-common-subsequence line diff of
  \<open>A\<close> with itself, the result has additions = 0 and deletions = 0 and every line change
  is unchanged, with the same old and new line numbers; there is no hunk when \<open>A\<close> is
  empty, and exactly one hunk otherwise, whose line changes hold, in order, the pieces
  that the split of line 103 keeps from each segment.
\<close>

theorem identical_texts:
  assumes "is_lcs_diff A A cs"
  shows "additions (snd (buildDiff fn cs)) = 0 \<and>
         deletions (snd (buildDiff fn cs)) = 0 \<and>
         (\<forall>l \<in> set (allChanges (fst (buildDiff fn cs))). ltype l = Normal) \<and>
         length (hunks (fst (buildDiff fn cs))) = (if A = [] then 0 else 1) \<and>
         map content (allChanges (fst (buildDiff fn cs))) = concat (map change_lines cs) \<and>
         oldNumbers (allChanges (fst (buildDiff fn cs)))
           = newNumbers (allChanges (fst (buildDiff fn cs)))"
proof -
  let ?tok = "\<lambda>c. tokenize (cvalue c)"
  from assms have ld: "is_line_diff A A cs" by (simp add: is_lcs_diff_def)
  from assms have u: "length (concat (map ?tok (filter (\<lambda>c. \<not> added c \<and> \<not> removed c) cs)))
                       = length (tokenize A)"
    by (simp add: is_lcs_diff_def lcs_same)
  from ld have o: "length (concat (map ?tok (filter (\<lambda>c. \<not> added c) cs))) = length (tokenize A)"
    by (simp add: is_line_diff_def covers_def)
  from ld have n: "length (concat (map ?tok (filter (\<lambda>c. \<not> removed c) cs))) = length (tokenize A)"
    by (simp add: is_line_diff_def covers_def)
  from u o old_side_split [of ?tok cs]
  have "length (concat (map ?tok (filter (\<lambda>c. \<not> added c \<and> removed c) cs))) = 0" by simp
  then have rem: "\<forall>c \<in> set cs. \<not> added c \<and> removed c \<longrightarrow> cvalue c = []"
    by (simp only: concat_filter_Nil tokenize_Nil_iff)
  from u n new_side_split [of ?tok cs]
  have "length (concat (map ?tok (filter (\<lambda>c. added c \<and> \<not> removed c) cs))) = 0" by simp
  then have "\<forall>c \<in> set cs. added c \<and> \<not> removed c \<longrightarrow> cvalue c = []"
    by (simp only: concat_filter_Nil tokenize_Nil_iff)
  with line_diff_wf [OF ld] have add: "\<forall>c \<in> set cs. added c \<longrightarrow> cvalue c = []" by blast
  have nor: "\<forall>x \<in> set (emitted cs). fst x = Normal"
  proof
    fix x assume x: "x \<in> set (emitted cs)"
    then have "(fst x, snd x) \<in> set (emitted cs)" by simp
    then obtain c where c: "c \<in> set cs" "roleOf c = fst x" "snd x \<in> set (change_lines c)"
      unfolding emitted_iff by blast
    from c(3) have "cvalue c \<noteq> []" using silent_segment [of c] by auto
    with add rem c(1) have "\<not> added c \<and> \<not> removed c" by blast
    with c(2) show "fst x = Normal" by (simp add: roleOf_def)
  qed
  then have a: "additions (snd (buildDiff fn cs)) = 0"
    by (simp add: buildDiff_fields insCount_0_iff)
  from nor have d: "deletions (snd (buildDiff fn cs)) = 0"
    by (simp add: buildDiff_fields delsCount_0_iff)
  have t: "\<forall>l \<in> set (allChanges (fst (buildDiff fn cs))). ltype l = Normal"
  proof
    fix l assume "l \<in> set (allChanges (fst (buildDiff fn cs)))"
    then have "(ltype l, content l) \<in> set (emitted cs)"
      by (simp only: allChanges_buildDiff numbered_member)
    with nor show "ltype l = Normal" by fastforce
  qed
  have h: "hunks (fst (buildDiff fn cs)) = [] \<longleftrightarrow> A = []"
  proof
    assume "hunks (fst (buildDiff fn cs)) = []"
    then have "\<forall>c \<in> set cs. cvalue c = []" by (simp only: hunks_Nil_iff)
    then have "concat (map cvalue (filter (\<lambda>c. \<not> removed c) cs)) = []" by simp
    with line_diff_new [OF ld] show "A = []" by simp
  next
    assume "A = []"
    with line_diff_old [OF ld] have "\<forall>c \<in> set cs. \<not> added c \<longrightarrow> cvalue c = []" by simp
    with add have "\<forall>c \<in> set cs. cvalue c = []" by blast
    then show "hunks (fst (buildDiff fn cs)) = []" by (simp only: hunks_Nil_iff)
  qed
  from h have n: "length (hunks (fst (buildDiff fn cs))) = (if A = [] then 0 else 1)"
    by (simp add: buildDiff_fields split: if_splits)
  have "map content (numbered 1 1 (emitted cs)) = map snd (emitted cs)"
    using numbered_roles [of 1 1 "emitted cs", THEN arg_cong, of "map snd"]
    by (simp add: comp_def)
  also have "\<dots> = concat (map change_lines cs)"
    by (simp add: emitted_def map_concat comp_def)
  finally have c: "map content (allChanges (fst (buildDiff fn cs))) = concat (map change_lines cs)"
    by (simp only: allChanges_buildDiff)
  from nor have "filter (\<lambda>x. fst x \<noteq> Insert) (emitted cs) = emitted cs"
    and "filter (\<lambda>x. fst x \<noteq> Delete) (emitted cs) = emitted cs"
    by (simp_all add: filter_id_conv)
  then have "oldCount (emitted cs) = newCount (emitted cs)"
    by (simp add: oldCount_def newCount_def)
  then have p: "oldNumbers (allChanges (fst (buildDiff fn cs)))
                  = newNumbers (allChanges (fst (buildDiff fn cs)))"
    by (simp add: allChanges_buildDiff oldNumbers_numbered newNumbers_numbered)
  from a d t n c p show ?thesis by blast
qed

theorem identical_texts_witness:
  "is_lcs_diff ''a\<newline>b\<newline>'' ''a\<newline>b\<newline>'' [unchangedSeg ''a\<newline>b\<newline>''] \<and>
   additions (snd (buildDiff ''Untitled'' [unchangedSeg ''a\<newline>b\<newline>''])) = 0 \<and>
   deletions (snd (buildDiff ''Untitled'' [unchangedSeg ''a\<newline>b\<newline>''])) = 0 \<and>
   length (hunks (fst (buildDiff ''Untitled'' [unchangedSeg ''a\<newline>b\<newline>'']))) = 1 \<and>
   map content (allChanges (fst (buildDiff ''Untitled'' [unchangedSeg ''a\<newline>b\<newline>''])))
     = [''a'', ''b'', []]"
proof -
  have h: "is_lcs_diff ''a\<newline>b\<newline>'' ''a\<newline>b\<newline>'' [unchangedSeg ''a\<newline>b\<newline>'']"
    by code_simp
  have l: "concat (map change_lines [unchangedSeg ''a\<newline>b\<newline>'']) = [''a'', ''b'', []]"
    by code_simp
  from identical_texts [OF h, of "''Untitled''"] h l show ?thesis by simp
qed

section \<open>Trailing line feeds\<close>

text \<open>
  "a\<newline>" and "a\<newline>\<newline>" differ only in a trailing line feed. The added segment is the lone
  line feed, which splits into two empty pieces, and both are kept: two inserted empty
  lines, not one.
\<close>

theorem trailing_newline_counterexample:
  "is_lcs_diff ''a\<newline>'' ''a\<newline>\<newline>'' [unchangedSeg ''a\<newline>'', addedSeg ''\<newline>''] \<and>
   emptyLines Insert (fst (buildDiff ''Untitled'' [unchangedSeg ''a\<newline>'', addedSeg ''\<newline>''])) = 2 \<and>
   emptyLines Delete (fst (buildDiff ''Untitled'' [unchangedSeg ''a\<newline>'', addedSeg ''\<newline>''])) = 0"
  by code_simp

text \<open>
  C2 (amended): a segment whose text ends with a line feed keeps every piece between
  line feeds, the empty last one included (so it yields one line more than it has line
  feeds, and the lone line feed yields two empty lines); a segment whose text does not
  end with a line feed loses all its empty pieces. Consequently, for texts \<open>t\<close> and
  \<open>t\<close> followed by a line feed, every longest-common-subsequence line diff yields
  exactly one inserted empty line (when the line feed was added) or exactly one deleted
  empty line (when it was removed) if \<open>t\<close> is not empty and does not end with a line
  feed, and exactly two if \<open>t\<close> is empty or ends with a line feed; it yields no empty
  line of the other role. Every line-level diff, minimal or not, yields at least one.
\<close>

theorem trailing_newline_lines:
  "change_lines c = (if endsWith_nl (cvalue c) then split_nl (cvalue c)
                     else filter (\<lambda>l. l \<noteq> []) (split_nl (cvalue c))) \<and>
   (endsWith_nl (cvalue c) \<longrightarrow>
      last (change_lines c) = [] \<and> length (change_lines c) = Suc (count_list (cvalue c) NL)) \<and>
   (cvalue c = [NL] \<longrightarrow> change_lines c = [[], []]) \<and>
   (is_lcs_diff t (t @ [NL]) cs \<longrightarrow>
      emptyLines Insert (fst (buildDiff fn cs)) = (if t = [] \<or> endsWith_nl t then 2 else 1) \<and>
      emptyLines Delete (fst (buildDiff fn cs)) = 0) \<and>
   (is_lcs_diff (t @ [NL]) t cs' \<longrightarrow>
      emptyLines Delete (fst (buildDiff fn cs')) = (if t = [] \<or> endsWith_nl t then 2 else 1) \<and>
      emptyLines Insert (fst (buildDiff fn cs')) = 0) \<and>
   (is_line_diff t (t @ [NL]) ds \<longrightarrow> 1 \<le> emptyLines Insert (fst (buildDiff fn ds))) \<and>
   (is_line_diff (t @ [NL]) t ds' \<longrightarrow> 1 \<le> emptyLines Delete (fst (buildDiff fn ds')))"
proof -
  have a: "change_lines c = (if endsWith_nl (cvalue c) then split_nl (cvalue c)
                     else filter (\<lambda>l. l \<noteq> []) (split_nl (cvalue c)))"
    by (rule change_lines_cases)
  have b: "endsWith_nl (cvalue c) \<longrightarrow>
      last (change_lines c) = [] \<and> length (change_lines c) = Suc (count_list (cvalue c) NL)"
    by (simp add: change_lines_cases last_split_nl length_split_nl)
  have l: "cvalue c = [NL] \<longrightarrow> change_lines c = [[], []]"
    by (simp add: change_lines_def endsWith_nl_def)
  from a b l added_newline_exact [of t cs fn] added_newline_no_deleted_blank [of t cs fn]
    removed_newline_exact [of t cs' fn] removed_newline_no_inserted_blank [of t cs' fn]
    added_newline_surfaces [of t ds fn] removed_newline_surfaces [of t ds' fn]
  show ?thesis by blast
qed

theorem trailing_newline_lines_witness:
  "change_lines (addedSeg [NL]) = [[], []] \<and>
   change_lines (addedSeg ''b\<newline>'') = [''b'', []] \<and>
   is_lcs_diff ''a'' (''a'' @ [NL]) [removedSeg ''a'', addedSeg ''a\<newline>''] \<and>
   emptyLines Insert (fst (buildDiff ''Untitled'' [removedSeg ''a'', addedSeg ''a\<newline>''])) = 1 \<and>
   is_lcs_diff ''a\<newline>'' (''a\<newline>'' @ [NL]) [unchangedSeg ''a\<newline>'', addedSeg ''\<newline>''] \<and>
   emptyLines Insert (fst (buildDiff ''Untitled'' [unchangedSeg ''a\<newline>'', addedSeg ''\<newline>''])) = 2 \<and>
   is_lcs_diff (''a'' @ [NL]) ''a'' [removedSeg ''a\<newline>'', addedSeg ''a''] \<and>
   emptyLines Delete (fst (buildDiff ''Untitled'' [removedSeg ''a\<newline>'', addedSeg ''a''])) = 1 \<and>
   is_line_diff ''a'' (''a'' @ [NL]) [removedSeg ''a'', addedSeg ''a\<newline>''] \<and>
   is_line_diff (''a'' @ [NL]) ''a'' [removedSeg ''a\<newline>'', addedSeg ''a'']"
proof -
  have e: "cvalue (addedSeg [NL]) = [NL]" by code_simp
  have l: "change_lines (addedSeg ''b\<newline>'') = [''b'', []]" by code_simp
  have i1: "is_lcs_diff ''a'' (''a'' @ [NL]) [removedSeg ''a'', addedSeg ''a\<newline>'']" by code_simp
  have i2: "is_lcs_diff ''a\<newline>'' (''a\<newline>'' @ [NL]) [unchangedSeg ''a\<newline>'', addedSeg ''\<newline>'']"
    by code_simp
  have d1: "is_lcs_diff (''a'' @ [NL]) ''a'' [removedSeg ''a\<newline>'', addedSeg ''a'']" by code_simp
  have g1: "is_line_diff ''a'' (''a'' @ [NL]) [removedSeg ''a'', addedSeg ''a\<newline>'']" by code_simp
  have g2: "is_line_diff (''a'' @ [NL]) ''a'' [removedSeg ''a\<newline>'', addedSeg ''a'']" by code_simp
  have n1: "\<not> (''a'' = [] \<or> endsWith_nl ''a'')" by code_simp
  have n2: "''a\<newline>'' = [] \<or> endsWith_nl ''a\<newline>''" by code_simp
  from trailing_newline_lines [of "addedSeg [NL]" "''a''"
         "[removedSeg ''a'', addedSeg ''a\<newline>'']" "''Untitled''"
         "[removedSeg ''a\<newline>'', addedSeg ''a'']"
         "[removedSeg ''a'', addedSeg ''a\<newline>'']"
         "[removedSeg ''a\<newline>'', addedSeg ''a'']"] e i1 d1 g1 g2 n1
  have p: "change_lines (addedSeg [NL]) = [[], []] \<and>
     emptyLines Insert (fst (buildDiff ''Untitled'' [removedSeg ''a'', addedSeg ''a\<newline>''])) = 1 \<and>
     emptyLines Delete (fst (buildDiff ''Untitled'' [removedSeg ''a\<newline>'', addedSeg ''a''])) = 1"
    by (simp add: endsWith_nl_def)
  from trailing_newline_lines [of "addedSeg [NL]" "''a\<newline>''"
         "[unchangedSeg ''a\<newline>'', addedSeg ''\<newline>'']" "''Untitled''" "[]" "[]" "[]"] i2 n2
  have q: "emptyLines Insert (fst (buildDiff ''Untitled'' [unchangedSeg ''a\<newline>'', addedSeg ''\<newline>''])) = 2"
    by (simp add: endsWith_nl_def)
  from p q l i1 i2 d1 g1 g2 show ?thesis by blast
qed

section \<open>The scenario of an appended line\<close>

text \<open>
  For old = "line1\<newline>line2" and new = "line1\<newline>line2\<newline>line3" the result has five line
  changes, two additions and one deletion, not three line changes with one addition.
\<close>

theorem scenario_counterexample:
  "is_lcs_diff ''line1\<newline>line2'' ''line1\<newline>line2\<newline>line3'' scenarioSegments \<and>
   length (allChanges (fst (buildDiff ''Untitled'' scenarioSegments))) = 5 \<and>
   additions (snd (buildDiff ''Untitled'' scenarioSegments)) = 2 \<and>
   deletions (snd (buildDiff ''Untitled'' scenarioSegments)) = 1"
  by code_simp

text \<open>
  C3 (amended): for old = "line1\<newline>line2" and new = "line1\<newline>line2\<newline>line3", every
  line-level diff yields at least one deletion, since the old line "line2" has no line
  feed and the new line "line2\<newline>" has one. With the segments unchanged "line1\<newline>",
  removed "line2", added "line2\<newline>line3", the result is exactly one hunk with
  \<open>oldLines = 3\<close>, \<open>newLines = 4\<close> and five line changes: unchanged "line1" (1, 1),
  unchanged "" (2, 2), deleted "line2" (old 3), inserted "line2" (new 3) and inserted
  "line3" (new 4); additions = 2 and deletions = 1.
\<close>

theorem scenario_result:
  "(is_line_diff ''line1\<newline>line2'' ''line1\<newline>line2\<newline>line3'' cs \<longrightarrow>
      1 \<le> deletions (snd (buildDiff fn cs))) \<and>
   is_lcs_diff ''line1\<newline>line2'' ''line1\<newline>line2\<newline>line3'' scenarioSegments \<and>
   buildDiff fn scenarioSegments =
     (\<lparr>oldPath = fn, newPath = fn, oldRevision = ''previous'',
       newRevision = ''current'', ftype = ''modify'',
       hunks =
         [\<lparr>oldStart = 1, oldLines = 3, newStart = 1, newLines = 4,
           header = ''@@ -1,3 +1,4 @@'',
           changes =
             [\<lparr>ltype = Normal, content = ''line1'', oldLineNumber = Some 1,
               newLineNumber = Some 1\<rparr>,
              \<lparr>ltype = Normal, content = [], oldLineNumber = Some 2,
               newLineNumber = Some 2\<rparr>,
              \<lparr>ltype = Delete, content = ''line2'', oldLineNumber = Some 3,
               newLineNumber = None\<rparr>,
              \<lparr>ltype = Insert, content = ''line2'', oldLineNumber = None,
               newLineNumber = Some 3\<rparr>,
              \<lparr>ltype = Insert, content = ''line3'', oldLineNumber = None,
               newLineNumber = Some 4\<rparr>]\<rparr>]\<rparr>,
      \<lparr>additions = 2, deletions = 1\<rparr>)"
proof -
  have a: "is_lcs_diff ''line1\<newline>line2'' ''line1\<newline>line2\<newline>line3'' scenarioSegments"
    by code_simp
  have b: "buildDiff fn scenarioSegments =
     (\<lparr>oldPath = fn, newPath = fn, oldRevision = ''previous'',
       newRevision = ''current'', ftype = ''modify'',
       hunks =
         [\<lparr>oldStart = 1, oldLines = 3, newStart = 1, newLines = 4,
           header = ''@@ -1,3 +1,4 @@'',
           changes =
             [\<lparr>ltype = Normal, content = ''line1'', oldLineNumber = Some 1,
               newLineNumber = Some 1\<rparr>,
              \<lparr>ltype = Normal, content = [], oldLineNumber = Some 2,
               newLineNumber = Some 2\<rparr>,
              \<lparr>ltype = Delete, content = ''line2'', oldLineNumber = Some 3,
               newLineNumber = None\<rparr>,
              \<lparr>ltype = Insert, content = ''line2'', oldLineNumber = None,
               newLineNumber = Some 3\<rparr>,
              \<lparr>ltype = Insert, content = ''line3'', oldLineNumber = None,
               newLineNumber = Some 4\<rparr>]\<rparr>]\<rparr>,
      \<lparr>additions = 2, deletions = 1\<rparr>)"
    by code_simp
  from a b scenario_deletes [of cs fn] show ?thesis by blast
qed

theorem scenario_result_witness:
  "is_line_diff ''line1\<newline>line2'' ''line1\<newline>line2\<newline>line3'' scenarioSegments \<and>
   1 \<le> deletions (snd (buildDiff ''Untitled'' scenarioSegments))"
proof -
  have h: "is_line_diff ''line1\<newline>line2'' ''line1\<newline>line2\<newline>line3'' scenarioSegments"
    by code_simp
  from scenario_result [of scenarioSegments "''Untitled''"] h show ?thesis by blast
qed

section \<open>Empty old text\<close>

text \<open>
  The text "a\<newline>\<newline>b" has three lines, but as one added segment it does not end with a
  line feed, so its empty middle line is dropped: additions = 2.
\<close>

theorem empty_old_text_counterexample:
  "is_lcs_diff [] ''a\<newline>\<newline>b'' [addedSeg ''a\<newline>\<newline>b''] \<and>
   additions (snd (buildDiff ''Untitled'' [addedSeg ''a\<newline>\<newline>b''])) = 2 \<and>
   length (tokenize ''a\<newline>\<newline>b'') = 3 \<and>
   length (split_nl ''a\<newline>\<newline>b'') = 3"
  by code_simp

text \<open>
  C4 (amended): for every text \<open>B\<close> and every line-level diff of the empty text with
  \<open>B\<close>, deletions = 0, every line change is inserted, additions is the number of line
  changes emitted, and there is no hunk when \<open>B\<close> is empty and exactly one otherwise.
  When \<open>B\<close> is one added segment, additions is one more than the number of line feeds
  of \<open>B\<close> if \<open>B\<close> ends with a line feed, and the number of non-empty pieces between
  line feeds otherwise.
\<close>

theorem empty_old_text:
  assumes "is_line_diff [] B cs"
  shows "deletions (snd (buildDiff fn cs)) = 0 \<and>
         (\<forall>l \<in> set (allChanges (fst (buildDiff fn cs))). ltype l = Insert) \<and>
         additions (snd (buildDiff fn cs)) = length (allChanges (fst (buildDiff fn cs))) \<and>
         length (hunks (fst (buildDiff fn cs))) = (if B = [] then 0 else 1) \<and>
         additions (snd (buildDiff fn [addedSeg B])) =
           (if endsWith_nl B then Suc (count_list B NL)
            else length (filter (\<lambda>l. l \<noteq> []) (split_nl B)))"
proof -
  from assms have "concat (map cvalue (filter (\<lambda>c. \<not> added c) cs)) = []"
    by (rule line_diff_old)
  then have quiet: "\<forall>c \<in> set cs. \<not> added c \<longrightarrow> cvalue c = []" by simp
  have ins: "\<forall>x \<in> set (emitted cs). fst x = Insert"
  proof
    fix x assume x: "x \<in> set (emitted cs)"
    then have "(fst x, snd x) \<in> set (emitted cs)" by simp
    then obtain c where c: "c \<in> set cs" "roleOf c = fst x" "snd x \<in> set (change_lines c)"
      unfolding emitted_iff by blast
    from c(3) have "cvalue c \<noteq> []" using silent_segment [of c] by auto
    with quiet c(1) have "added c" by blast
    with c(2) show "fst x = Insert" by (simp add: roleOf_def)
  qed
  then have d: "deletions (snd (buildDiff fn cs)) = 0"
    by (simp add: buildDiff_fields delsCount_0_iff)
  have t: "\<forall>l \<in> set (allChanges (fst (buildDiff fn cs))). ltype l = Insert"
  proof
    fix l assume "l \<in> set (allChanges (fst (buildDiff fn cs)))"
    then have "(ltype l, content l) \<in> set (emitted cs)"
      by (simp only: allChanges_buildDiff numbered_member)
    with ins show "ltype l = Insert" by fastforce
  qed
  from ins have "filter (\<lambda>x. fst x = Insert) (emitted cs) = emitted cs"
    by (simp add: filter_id_conv)
  then have a: "additions (snd (buildDiff fn cs)) = length (allChanges (fst (buildDiff fn cs)))"
    by (simp add: buildDiff_fields allChanges_buildDiff insCount_def)
  have h: "hunks (fst (buildDiff fn cs)) = [] \<longleftrightarrow> B = []"
  proof
    assume "hunks (fst (buildDiff fn cs)) = []"
    then have "\<forall>c \<in> set cs. cvalue c = []" by (simp only: hunks_Nil_iff)
    then have "concat (map cvalue (filter (\<lambda>c. \<not> removed c) cs)) = []" by simp
    with line_diff_new [OF assms] show "B = []" by simp
  next
    assume "B = []"
    with line_diff_new [OF assms] have "\<forall>c \<in> set cs. \<not> removed c \<longrightarrow> cvalue c = []" by simp
    moreover have "\<forall>c \<in> set cs. added c \<longrightarrow> \<not> removed c"
      using line_diff_wf [OF assms] by blast
    ultimately have "\<forall>c \<in> set cs. cvalue c = []" using quiet by blast
    then show "hunks (fst (buildDiff fn cs)) = []" by (simp only: hunks_Nil_iff)
  qed
  have s: "additions (snd (buildDiff fn [addedSeg B])) =
           (if endsWith_nl B then Suc (count_list B NL)
            else length (filter (\<lambda>l. l \<noteq> []) (split_nl B)))"
    by (simp add: buildDiff_fields emitted_def insCount_def roleOf_def addedSeg_def
        change_lines_def comp_def length_split_nl)
  from h have n: "length (hunks (fst (buildDiff fn cs))) = (if B = [] then 0 else 1)"
    by (simp add: buildDiff_fields split: if_splits)
  from d t a n s show ?thesis by blast
qed

theorem empty_old_text_witness:
  "is_line_diff [] ''a\<newline>b'' [addedSeg ''a\<newline>b''] \<and>
   deletions (snd (buildDiff ''Untitled'' [addedSeg ''a\<newline>b''])) = 0 \<and>
   additions (snd (buildDiff ''Untitled'' [addedSeg ''a\<newline>b'']))
     = length (allChanges (fst (buildDiff ''Untitled'' [addedSeg ''a\<newline>b'']))) \<and>
   length (allChanges (fst (buildDiff ''Untitled'' [addedSeg ''a\<newline>b'']))) = 2"
proof -
  have h: "is_line_diff [] ''a\<newline>b'' [addedSeg ''a\<newline>b'']" by code_simp
  have n: "length (allChanges (fst (buildDiff ''Untitled'' [addedSeg ''a\<newline>b'']))) = 2"
    by code_simp
  from empty_old_text [OF h, of "''Untitled''"] h n show ?thesis by blast
qed

section \<open>The old text\<close>

text \<open>
  C5: for every history with unique indices (the data model) and every descriptor whose
  current version is found: with change type create the old text is empty; with change
  type update, if an entry with index \<open>previousIndex\<close> has the kind of the current content,
  the old text is the body of that entry; and if no entry with that index has that kind,
  the old text is empty.
\<close>

theorem resolve_oldText:
  assumes "distinct (map index contents)"
      and "findIndex contents (Some (artifactIndex info)) = Some cur"
  shows "\<exists>r. resolve contents info = Inr r \<and> newText r = body cur \<and>
     (changeType info = Create \<longrightarrow> oldText r = []) \<and>
     (changeType info = Update \<longrightarrow>
        (\<forall>p \<in> set contents.
            Some (index p) = previousIndex info \<and> ctype p = ctype cur \<longrightarrow> oldText r = body p) \<and>
        ((\<forall>p \<in> set contents. Some (index p) = previousIndex info \<longrightarrow> ctype p \<noteq> ctype cur)
            \<longrightarrow> oldText r = []))"
proof -
  let ?r = "\<lparr>oldText =
            (if changeType info = Create then []
             else (case findIndex contents (previousIndex info) of
                     None \<Rightarrow> []
                   | Some p \<Rightarrow> if ctype p = ctype cur then body p else [])),
          newText = body cur, fileName = titleOrUntitled cur\<rparr>"
  have r: "resolve contents info = Inr ?r" using assms(2) by (rule resolve_found)
  have c: "changeType info = Create \<longrightarrow> oldText ?r = []" by simp
  have u1: "oldText ?r = body p"
    if "changeType info = Update" "p \<in> set contents" "Some (index p) = previousIndex info"
       "ctype p = ctype cur" for p
  proof -
    have "findIndex contents (previousIndex info) = Some p"
      using assms(1) that(2,3) by (rule findIndex_distinct)
    with that show ?thesis by simp
  qed
  have u2: "oldText ?r = []"
    if "changeType info = Update"
       "\<forall>p \<in> set contents. Some (index p) = previousIndex info \<longrightarrow> ctype p \<noteq> ctype cur"
  proof (cases "findIndex contents (previousIndex info)")
    case None
    then show ?thesis by simp
  next
    case (Some p)
    from findIndex_Some [OF Some] that(2) have "ctype p \<noteq> ctype cur" by blast
    with Some show ?thesis by simp
  qed
  from r c u1 u2 show ?thesis by (intro exI [of _ ?r]) auto
qed

theorem resolve_oldText_witness:
  "distinct (map index exampleContents) \<and>
   findIndex exampleContents (Some (artifactIndex exampleUpdate)) = Some (exampleContents ! 1) \<and>
   (\<exists>r. resolve exampleContents exampleUpdate = Inr r \<and> newText r = ''alpha\<newline>beta'' \<and>
        oldText r = ''alpha'')"
proof -
  have d: "distinct (map index exampleContents)" by code_simp
  have f: "findIndex exampleContents (Some (artifactIndex exampleUpdate)) = Some (exampleContents ! 1)"
    by code_simp
  have u: "changeType exampleUpdate = Update" by code_simp
  have m: "exampleContents ! 0 \<in> set exampleContents" by code_simp
  have i: "Some (index (exampleContents ! 0)) = previousIndex exampleUpdate" by code_simp
  have k: "ctype (exampleContents ! 0) = ctype (exampleContents ! 1)" by code_simp
  have b0: "body (exampleContents ! 0) = ''alpha''" by code_simp
  have b1: "body (exampleContents ! 1) = ''alpha\<newline>beta''" by code_simp
  from resolve_oldText [OF d f] obtain r where
    r: "resolve exampleContents exampleUpdate = Inr r" "newText r = body (exampleContents ! 1)"
       "changeType exampleUpdate = Update \<longrightarrow>
        (\<forall>p \<in> set exampleContents.
            Some (index p) = previousIndex exampleUpdate \<and> ctype p = ctype (exampleContents ! 1)
              \<longrightarrow> oldText r = body p)"
    by blast
  from r(3) u m i k have "oldText r = body (exampleContents ! 0)" by blast
  with r(1,2) b0 b1 d f show ?thesis by auto
qed

section \<open>A version that is not in the history\<close>

text \<open>
  C6: if no entry of the history has the index \<open>artifactIndex\<close>, the lookup fails with
  \<open>NotFound\<close>, and the effect only records the descriptor: whatever the line-diff function
  is, it is not applied, and the stored files and statistics stay as they were.
\<close>

theorem resolve_not_found:
  assumes "\<forall>c \<in> set contents. index c \<noteq> artifactIndex info"
      and "\<not> noDiffId diffId"
      and "find (\<lambda>m. msgId m = diffId) messages = Some msg"
      and "artifactDiffInfo msg = Some info"
  shows "resolve contents info = Inl NotFound \<and>
         diffEffect diffLines diffId messages (Some contents) st
           = (st\<lparr>diffInfo := Some info\<rparr>, [])"
proof -
  from assms(1) have "findIndex contents (Some (artifactIndex info)) = None"
    by (simp add: findIndex_None)
  then have r: "resolve contents info = Inl NotFound" by (simp add: resolve_def)
  from assms(3) have "messages \<noteq> []" by auto
  with r assms(2-4) show ?thesis by (simp add: diffEffect_def)
qed

theorem resolve_not_found_witness:
  "list_all (\<lambda>c. index c \<noteq> artifactIndex exampleMissing) exampleContents \<and>
   resolve exampleContents exampleMissing = Inl NotFound \<and>
   diffEffect throwingDiff (Some ''m2'') exampleMessages (Some exampleContents) exampleState
     = (exampleState\<lparr>diffInfo := Some exampleMissing\<rparr>, [])"
proof -
  have a: "\<forall>c \<in> set exampleContents. index c \<noteq> artifactIndex exampleMissing" by code_simp
  have b: "\<not> noDiffId (Some ''m2'')" by code_simp
  have c: "find (\<lambda>m. msgId m = Some ''m2'') exampleMessages = Some (exampleMessages ! 1)"
    by code_simp
  have d: "artifactDiffInfo (exampleMessages ! 1) = Some exampleMissing" by code_simp
  from resolve_not_found [where contents = exampleContents and info = exampleMissing
         and diffId = "Some ''m2''" and messages = exampleMessages
         and msg = "exampleMessages ! 1" and diffLines = throwingDiff and st = exampleState,
         OF a b c d] a
  show ?thesis by (simp add: list_all_iff)
qed

section \<open>Hunk assembly, statistics and line numbers\<close>

text \<open>
  C7: if at least one line change is emitted, the result has exactly one hunk, with
  \<open>oldStart = 1\<close>, \<open>newStart = 1\<close>, \<open>oldLines\<close> the final old counter minus one and
  \<open>newLines\<close> the final new counter minus one, holding all emitted line changes in
  emission order; if none is emitted, there is no hunk. The emitted line changes are the
  lines of the segments in order, each with the role of its segment, and the two counts
  are the numbers of line changes that carry an old and a new line number.
\<close>

theorem hunk_assembly:
  "hunks (fst (buildDiff fn cs)) =
     (if hunkChanges (walk cs) = [] then []
      else [\<lparr>oldStart = 1, oldLines = oldCounter (walk cs) - 1,
             newStart = 1, newLines = newCounter (walk cs) - 1,
             header = ''@@ -1,'' @ showNat (oldCounter (walk cs) - 1) @ '' +1,''
                        @ showNat (newCounter (walk cs) - 1) @ '' @@'',
             changes = hunkChanges (walk cs)\<rparr>]) \<and>
   map (\<lambda>l. (ltype l, content l)) (hunkChanges (walk cs)) = emitted cs \<and>
   oldCounter (walk cs) - 1 = length (oldNumbers (hunkChanges (walk cs))) \<and>
   newCounter (walk cs) - 1 = length (newNumbers (hunkChanges (walk cs)))"
  by (simp add: buildDiff_fields mkHunk_def walk_fields numbered_roles
      oldNumbers_numbered newNumbers_numbered)

theorem hunk_assembly_witness:
  "hunkChanges (walk scenarioSegments) \<noteq> [] \<and>
   map oldLines (hunks (fst (buildDiff ''Untitled'' scenarioSegments))) = [3] \<and>
   map newLines (hunks (fst (buildDiff ''Untitled'' scenarioSegments))) = [4] \<and>
   hunkChanges (walk []) = [] \<and>
   hunks (fst (buildDiff ''Untitled'' [])) = []"
proof -
  have a: "hunkChanges (walk scenarioSegments) \<noteq> []" by code_simp
  have b: "oldCounter (walk scenarioSegments) = 4" by code_simp
  have c: "newCounter (walk scenarioSegments) = 5" by code_simp
  have d: "hunkChanges (walk []) = []" by code_simp
  show ?thesis
    using hunk_assembly [of "''Untitled''" scenarioSegments] hunk_assembly [of "''Untitled''" "[]"]
    by (simp add: a b c d)
qed

text \<open>
  C8: the additions count is the number of line changes with role inserted across all
  hunks of the result, and the deletions count is the number with role deleted.
\<close>

theorem additions_deletions_count:
  "additions (snd (buildDiff fn cs))
     = length (filter (\<lambda>l. ltype l = Insert) (allChanges (fst (buildDiff fn cs)))) \<and>
   deletions (snd (buildDiff fn cs))
     = length (filter (\<lambda>l. ltype l = Delete) (allChanges (fst (buildDiff fn cs))))"
  using filter_numbered [of "\<lambda>x. fst x = Insert" 1 1 "emitted cs"]
        filter_numbered [of "\<lambda>x. fst x = Delete" 1 1 "emitted cs"]
  by (simp add: buildDiff_fields allChanges_buildDiff insCount_def delsCount_def)

section \<open>A failing line-diff step\<close>

text \<open>
  C9: if the line-diff step throws, the effect writes the error to the console and leaves
  the stored files, the statistics and the open flag as they were.
\<close>

theorem diff_failure_keeps_state:
  assumes "\<not> noDiffId diffId"
      and "find (\<lambda>m. msgId m = diffId) messages = Some msg"
      and "artifactDiffInfo msg = Some info"
      and "resolve contents info = Inr r"
      and "diffLines (oldText r) (newText r) = Inl err"
  shows "diffEffect diffLines diffId messages (Some contents) st
           = (st\<lparr>diffInfo := Some info\<rparr>, [''Error generating diff: '' @ err]) \<and>
         diffFiles (fst (diffEffect diffLines diffId messages (Some contents) st)) = diffFiles st \<and>
         stats (fst (diffEffect diffLines diffId messages (Some contents) st)) = stats st \<and>
         isOpen (fst (diffEffect diffLines diffId messages (Some contents) st)) = isOpen st"
proof -
  from assms(2) have "messages \<noteq> []" by auto
  with assms have "diffEffect diffLines diffId messages (Some contents) st
           = (st\<lparr>diffInfo := Some info\<rparr>, [''Error generating diff: '' @ err])"
    by (simp add: diffEffect_def)
  then show ?thesis by simp
qed

theorem diff_failure_keeps_state_witness:
  "resolve exampleContents exampleUpdate
     = Inr \<lparr>oldText = ''alpha'', newText = ''alpha\<newline>beta'', fileName = ''Notes''\<rparr> \<and>
   throwingDiff ''alpha'' ''alpha\<newline>beta'' = Inl ''internal error'' \<and>
   snd (diffEffect throwingDiff (Some ''m1'') exampleMessages (Some exampleContents) exampleState)
     = [''Error generating diff: internal error''] \<and>
   diffFiles (fst (diffEffect throwingDiff (Some ''m1'') exampleMessages (Some exampleContents)
                     exampleState)) = diffFiles exampleState \<and>
   stats (fst (diffEffect throwingDiff (Some ''m1'') exampleMessages (Some exampleContents)
                 exampleState)) = stats exampleState"
proof -
  let ?r = "\<lparr>oldText = ''alpha'', newText = ''alpha\<newline>beta'', fileName = ''Notes''\<rparr>"
  have a: "\<not> noDiffId (Some ''m1'')" by code_simp
  have b: "find (\<lambda>m. msgId m = Some ''m1'') exampleMessages = Some (exampleMessages ! 0)"
    by code_simp
  have c: "artifactDiffInfo (exampleMessages ! 0) = Some exampleUpdate" by code_simp
  have d: "resolve exampleContents exampleUpdate = Inr ?r" by code_simp
  have e: "throwingDiff (oldText ?r) (newText ?r) = Inl ''internal error''" by code_simp
  from diff_failure_keeps_state [where diffId = "Some ''m1''" and messages = exampleMessages
         and msg = "exampleMessages ! 0" and info = exampleUpdate
         and contents = exampleContents and r = ?r and diffLines = throwingDiff
         and err = "''internal error''" and st = exampleState, OF a b c d e] d e
  show ?thesis by simp
qed

section \<open>Line numbers\<close>

text \<open>
  C10: in every hunk of the result, the old line numbers of the line changes that carry
  one are 1, 2, ... up to \<open>oldLines\<close> in emission order, and the new line numbers are
  1, 2, ... up to \<open>newLines\<close>; both sequences are strictly increasing and start at 1.
\<close>

theorem line_numbers_increase:
  "\<forall>h \<in> set (hunks (fst (buildDiff fn cs))).
     oldNumbers (changes h) = [1 ..< Suc (oldLines h)] \<and>
     newNumbers (changes h) = [1 ..< Suc (newLines h)] \<and>
     sorted_wrt (<) (oldNumbers (changes h)) \<and>
     sorted_wrt (<) (newNumbers (changes h))"
proof
  fix h
  assume "h \<in> set (hunks (fst (buildDiff fn cs)))"
  then have h: "h = mkHunk (walk cs)"
    by (simp add: buildDiff_fields split: if_splits)
  have o: "oldNumbers (changes h) = [1 ..< Suc (oldLines h)]"
    by (simp add: h mkHunk_def walk_fields oldNumbers_numbered)
  have n: "newNumbers (changes h) = [1 ..< Suc (newLines h)]"
    by (simp add: h mkHunk_def walk_fields newNumbers_numbered)
  have "sorted_wrt (<) [1 ..< Suc (oldLines h)]" "sorted_wrt (<) [1 ..< Suc (newLines h)]"
    by (rule sorted_wrt_upt)+
  with o n show "oldNumbers (changes h) = [1 ..< Suc (oldLines h)] \<and>
     newNumbers (changes h) = [1 ..< Suc (newLines h)] \<and>
     sorted_wrt (<) (oldNumbers (changes h)) \<and>
     sorted_wrt (<) (newNumbers (changes h))"
    by simp
qed

theorem line_numbers_increase_witness:
  "mkHunk (walk scenarioSegments) \<in> set (hunks (fst (buildDiff ''Untitled'' scenarioSegments))) \<and>
   oldNumbers (changes (mkHunk (walk scenarioSegments))) = [1, 2, 3] \<and>
   newNumbers (changes (mkHunk (walk scenarioSegments))) = [1, 2, 3, 4] \<and>
   sorted_wrt (<) (oldNumbers (changes (mkHunk (walk scenarioSegments)))) \<and>
   sorted_wrt (<) (newNumbers (changes (mkHunk (walk scenarioSegments))))"
proof -
  have m: "mkHunk (walk scenarioSegments)
             \<in> set (hunks (fst (buildDiff ''Untitled'' scenarioSegments)))"
    by code_simp
  have o: "oldNumbers (changes (mkHunk (walk scenarioSegments))) = [1, 2, 3]" by code_simp
  have n: "newNumbers (changes (mkHunk (walk scenarioSegments))) = [1, 2, 3, 4]" by code_simp
  from line_numbers_increase [of "''Untitled''" scenarioSegments, THEN bspec, OF m]
  have s: "sorted_wrt (<) (oldNumbers (changes (mkHunk (walk scenarioSegments)))) \<and>
           sorted_wrt (<) (newNumbers (changes (mkHunk (walk scenarioSegments))))"
    by blast
  from m o n s show ?thesis by blast
qed

end
